theory Spec2Isabelle
  imports Complex_Main
begin

section \<open>Room loader: errors and results\<close>

text \<open>
  The loader of \<^verbatim>\<open>src/room_loader.cpp\<close> can end in three ways: it returns a value, it
  throws (\<^verbatim>\<open>runtime_error\<close> from \<^verbatim>\<open>expect\<close>), or it reads a vector out of range or
  converts an unrepresentable float to \<^verbatim>\<open>int\<close>, which C++ leaves undefined. The last
  two are values of \<open>error\<close>. A loop of the source whose exit is not guaranteed is a
  \<^theory_text>\<open>partial_function (option)\<close>, where \<open>None\<close> means that the loop never exits.
\<close>

datatype error = RuntimeError string | UndefinedBehaviour

definition bindE :: "error + 'a \<Rightarrow> ('a \<Rightarrow> error + 'b) \<Rightarrow> error + 'b" where
  "bindE m f = (case m of Inl e \<Rightarrow> Inl e | Inr v \<Rightarrow> f v)"

section \<open>The formula parser (\<^verbatim>\<open>parseCall\<close>, lines 115-198)\<close>

text \<open>
  \<^verbatim>\<open>content += '\0'; auto stream = content.c_str();\<close> The stream is the rest of the
  text, ending with the appended NUL. \<^verbatim>\<open>accept\<close> never moves past a NUL, so the
  terminator that \<^verbatim>\<open>c_str\<close> adds behind it is never read; \<open>head []\<close> stands for it.
\<close>

definition NUL :: char where
  "NUL = CHR 0x00"

definition dquote :: char where
  "dquote = CHR 0x22"

definition head :: "string \<Rightarrow> char" where
  "head stream = (case stream of [] \<Rightarrow> NUL | c # _ \<Rightarrow> c)"

definition accept :: "char \<Rightarrow> string \<Rightarrow> bool \<times> string" where
  "accept what stream =
     (if head stream = NUL then (False, stream)
      else if head stream \<noteq> what then (False, stream)
      else (True, tl stream))"

text \<open>\<^verbatim>\<open>runtime_error(string("Expected '") + what + "'")\<close>\<close>

definition expectError :: "char \<Rightarrow> error" where
  "expectError what = RuntimeError (''Expected '' @ [CHR 0x27] @ [what] @ [CHR 0x27])"

definition expect :: "char \<Rightarrow> string \<Rightarrow> error + string" where
  "expect what stream =
     (if fst (accept what stream) then Inr (snd (accept what stream))
      else Inl (expectError what))"

text \<open>
  \<^verbatim>\<open>isalnum\<close> in the "C" locale: the ASCII digits and letters. No byte above 127 is
  alphanumeric there (for a negative \<^verbatim>\<open>char\<close> the call has no defined result in C).
\<close>

definition isalnum :: "char \<Rightarrow> bool" where
  "isalnum c =
     (let n = (of_char c :: nat)
      in (48 \<le> n \<and> n \<le> 57) \<or> (65 \<le> n \<and> n \<le> 90) \<or> (97 \<le> n \<and> n \<le> 122))"

definition isIdentChar :: "char \<Rightarrow> bool" where
  "isIdentChar c = (isalnum c \<or> c = CHR ''_'' \<or> c = CHR ''-'')"

text \<open>
  \<^verbatim>\<open>while(!accept('"')) { char c = head(); accept(c); r += c; }\<close>
  Nothing in the loop tests for the end of the text.
\<close>

partial_function (option) parseString :: "string \<Rightarrow> string \<Rightarrow> (string \<times> string) option" where
  "parseString r stream =
     (if fst (accept dquote stream) then Some (r, snd (accept dquote stream))
      else (let c = head stream in parseString (r @ [c]) (snd (accept c stream))))"

declare parseString.simps [code]

text \<open>
  \<^verbatim>\<open>while(isalnum(head()) || head() == '_' || head() == '-') { char c = head(); accept(c); r += c; }\<close>
\<close>

function parseIdentifier :: "string \<Rightarrow> string \<Rightarrow> string \<times> string" where
  "parseIdentifier r stream =
     (if isIdentChar (head stream)
      then (let c = head stream in parseIdentifier (r @ [c]) (snd (accept c stream)))
      else (r, stream))"
  by pat_completeness auto

termination parseIdentifier
proof (relation "measure (\<lambda>(r, stream). length stream)")
  show "wf (measure (\<lambda>(r, stream). length stream))"
    by simp
next
  fix r stream c
  assume "isIdentChar (head stream)" and "c = head stream"
  then show "((r @ [c], snd (accept c stream)), (r, stream)) \<in> measure (\<lambda>(r, stream). length stream)"
    by (cases stream) (auto simp: accept_def head_def isIdentChar_def isalnum_def NUL_def)
qed

declare parseIdentifier.simps [simp del]

definition parseArgument :: "string \<Rightarrow> (string \<times> string) option" where
  "parseArgument stream =
     (if fst (accept dquote stream) then parseString [] (snd (accept dquote stream))
      else Some (parseIdentifier [] stream))"

text \<open>
  The argument loop of \<^verbatim>\<open>parseCall\<close> (lines 187-194), with the flag \<^verbatim>\<open>first\<close> and the
  result vector \<^verbatim>\<open>r\<close> as arguments.
\<close>

partial_function (option) parseArgs ::
    "bool \<Rightarrow> string list \<Rightarrow> string \<Rightarrow> (error + string list) option" where
  "parseArgs first r stream =
     (if fst (accept (CHR '')'') stream) then Some (Inr r)
      else
        (case (if \<not> first then expect (CHR '','') stream else Inr stream) of
           Inl e \<Rightarrow> Some (Inl e)
         | Inr stream' \<Rightarrow>
             Option.bind (parseArgument stream')
               (\<lambda>(a, stream''). parseArgs False (r @ [a]) stream'')))"

declare parseArgs.simps [code]

definition parseCall :: "string \<Rightarrow> (error + string list) option" where
  "parseCall content =
     (let stream = content @ [NUL];
          (ident, stream1) = parseIdentifier [] stream;
          r = [ident]
      in if fst (accept (CHR ''('') stream1)
         then parseArgs True r (snd (accept (CHR ''('') stream1))
         else Some (Inr r))"

section \<open>\<^verbatim>\<open>parseFormula\<close> (lines 200-215)\<close>

text \<open>
  \<^verbatim>\<open>std::to_string\<close> on the loop counter, which starts at 0 and only grows: the decimal
  digits of a natural number (the counter is an \<^verbatim>\<open>int\<close>; a text of fewer than \<open>2^31\<close>
  tokens never wraps it).
\<close>

definition digit :: "nat \<Rightarrow> char" where
  "digit d = char_of (48 + d)"

fun to_string :: "nat \<Rightarrow> string" where
  "to_string n = (if n < 10 then [digit n] else to_string (n div 10) @ [digit (n mod 10)])"

declare to_string.simps [simp del]

text \<open>
  \<^verbatim>\<open>for(auto& varValue : words) r[to_string(i++)] = varValue;\<close>
  The \<^verbatim>\<open>map<string, string>\<close> is a partial function from keys to values.
\<close>

fun fillConfig :: "nat \<Rightarrow> string list \<Rightarrow> (string \<rightharpoonup> string) \<Rightarrow> (string \<rightharpoonup> string)" where
  "fillConfig i [] r = r"
| "fillConfig i (varValue # words) r = fillConfig (Suc i) words (r(to_string i \<mapsto> varValue))"

text \<open>
  The result is the pair of the out-parameter \<^verbatim>\<open>name\<close> and the returned map.
  \<^verbatim>\<open>words[0]\<close> on an empty vector would be undefined.
\<close>

definition parseFormula :: "string \<Rightarrow> (error + string \<times> (string \<rightharpoonup> string)) option" where
  "parseFormula formula =
     (case parseCall formula of
        None \<Rightarrow> None
      | Some (Inl e) \<Rightarrow> Some (Inl e)
      | Some (Inr words) \<Rightarrow>
          (case words of
             [] \<Rightarrow> Some (Inl UndefinedBehaviour)
           | w # words' \<Rightarrow> Some (Inr (w, fillConfig 0 words' Map.empty))))"

section \<open>Geometry\<close>

text \<open>
  Modelled from the spec: the headers \<^verbatim>\<open>base/mesh.h\<close>, \<^verbatim>\<open>room.h\<close> and the vector
  library behind them (\<^verbatim>\<open>Vector3f\<close>, \<^verbatim>\<open>Vector3i\<close>, \<^verbatim>\<open>dotProduct\<close>,
  \<^verbatim>\<open>crossProduct\<close>, \<^verbatim>\<open>normalize\<close>, \<^verbatim>\<open>Mesh\<close>, \<^verbatim>\<open>Plane\<close>, \<^verbatim>\<open>Convex\<close>,
  \<^verbatim>\<open>Thing\<close>, \<^verbatim>\<open>Room\<close>) are not part of the sources at hand. The records follow section 3
  of the specification; the vector operations have their usual meaning, with
  \<open>normalize v = v * (1 / sqrt (dot v v))\<close>. The \<^verbatim>\<open>float\<close> coordinates are idealised
  as real numbers: rounding, infinities and NaN are outside this model.
\<close>

datatype Vector3f = Vector3f real real real

datatype Vector3i = Vector3i int int int

datatype Vertex = Vertex real real real

datatype Face = Face int int int

record Mesh =
  name :: string
  vertices :: "Vertex list"
  faces :: "Face list"

record Plane =
  normal :: Vector3f
  offset :: real

record Convex =
  planes :: "Plane list"

record Thing =
  pos :: Vector3f
  typeName :: string
  config :: "string \<rightharpoonup> string"

record Room =
  start :: Vector3i
  colliders :: "Convex list"
  things :: "Thing list"

fun vec_add :: "Vector3f \<Rightarrow> Vector3f \<Rightarrow> Vector3f" where
  "vec_add (Vector3f ax ay az) (Vector3f bx by bz) = Vector3f (ax + bx) (ay + by) (az + bz)"

fun vec_sub :: "Vector3f \<Rightarrow> Vector3f \<Rightarrow> Vector3f" where
  "vec_sub (Vector3f ax ay az) (Vector3f bx by bz) = Vector3f (ax - bx) (ay - by) (az - bz)"

fun vec_scale :: "Vector3f \<Rightarrow> real \<Rightarrow> Vector3f" where
  "vec_scale (Vector3f ax ay az) k = Vector3f (ax * k) (ay * k) (az * k)"

fun dotProduct :: "Vector3f \<Rightarrow> Vector3f \<Rightarrow> real" where
  "dotProduct (Vector3f ax ay az) (Vector3f bx by bz) = ax * bx + ay * by + az * bz"

fun crossProduct :: "Vector3f \<Rightarrow> Vector3f \<Rightarrow> Vector3f" where
  "crossProduct (Vector3f ax ay az) (Vector3f bx by bz) =
     Vector3f (ay * bz - az * by) (az * bx - ax * bz) (ax * by - ay * bx)"

definition normalize :: "Vector3f \<Rightarrow> Vector3f" where
  "normalize v = vec_scale v (1 / sqrt (dotProduct v v))"

text \<open>
  The implicit conversion of a \<^verbatim>\<open>float\<close> to the \<^verbatim>\<open>int\<close> of a \<^verbatim>\<open>Vector3i\<close> drops the
  fraction (rounds towards zero); a value whose integer part is no 32-bit \<^verbatim>\<open>int\<close> has
  no defined conversion.
\<close>

definition trunc_float :: "real \<Rightarrow> int" where
  "trunc_float v = (if 0 \<le> v then \<lfloor>v\<rfloor> else \<lceil>v\<rceil>)"

definition float_to_int :: "real \<Rightarrow> error + int" where
  "float_to_int v =
     (if - (2 ^ 31) \<le> trunc_float v \<and> trunc_float v < 2 ^ 31 then Inr (trunc_float v)
      else Inl UndefinedBehaviour)"

section \<open>Helpers of the loader (lines 15-51)\<close>

fun toVector3f :: "Vertex \<Rightarrow> Vector3f" where
  "toVector3f (Vertex vx vy vz) = Vector3f vx vy vz"

text \<open>\<^verbatim>\<open>s.substr(0, prefix.size()) == prefix\<close>\<close>

definition startsWith :: "string \<Rightarrow> string \<Rightarrow> bool" where
  "startsWith s prefix = (take (length prefix) s = prefix)"

text \<open>
  \<^verbatim>\<open>mesh.vertices[i]\<close> with an \<^verbatim>\<open>int\<close> index: reading outside the vector is undefined.
\<close>

definition vertex_at :: "Mesh \<Rightarrow> int \<Rightarrow> error + Vertex" where
  "vertex_at mesh i =
     (if 0 \<le> i \<and> i < int (length (vertices mesh)) then Inr (vertices mesh ! nat i)
      else Inl UndefinedBehaviour)"

definition computeNormal :: "Mesh \<Rightarrow> int \<Rightarrow> int \<Rightarrow> int \<Rightarrow> error + Vector3f" where
  "computeNormal mesh i1 i2 i3 =
     bindE (vertex_at mesh i1) (\<lambda>va.
     bindE (vertex_at mesh i2) (\<lambda>vb.
     bindE (vertex_at mesh i3) (\<lambda>vc.
       let A = toVector3f va; B = toVector3f vb; C = toVector3f vc
       in Inr (normalize (crossProduct (vec_sub B A) (vec_sub C A))))))"

text \<open>\<^verbatim>\<open>operator !=\<close> and \<^verbatim>\<open>operator <\<close> on \<^verbatim>\<open>Vector3f\<close> (lines 34-51).\<close>

fun vec_neq :: "Vector3f \<Rightarrow> Vector3f \<Rightarrow> bool" where
  "vec_neq (Vector3f ax ay az) (Vector3f bx by bz) = (ax \<noteq> bx \<or> ay \<noteq> by \<or> az \<noteq> bz)"

fun vec_less :: "Vector3f \<Rightarrow> Vector3f \<Rightarrow> bool" where
  "vec_less (Vector3f ax ay az) (Vector3f bx by bz) =
     (if ax \<noteq> bx then ax < bx
      else if ay \<noteq> by then ay < by
      else if az \<noteq> bz then az < bz
      else False)"

section \<open>The edge beveler (\<^verbatim>\<open>bevelSharpEdges\<close>, lines 53-113)\<close>

datatype EdgeId = EdgeId (v1: Vector3f) (v2: Vector3f)

text \<open>\<^verbatim>\<open>std::min\<close> and \<^verbatim>\<open>std::max\<close> through \<^verbatim>\<open>operator <\<close>.\<close>

definition vec_min :: "Vector3f \<Rightarrow> Vector3f \<Rightarrow> Vector3f" where
  "vec_min a b = (if vec_less b a then b else a)"

definition vec_max :: "Vector3f \<Rightarrow> Vector3f \<Rightarrow> Vector3f" where
  "vec_max a b = (if vec_less a b then b else a)"

definition mk :: "Vector3f \<Rightarrow> Vector3f \<Rightarrow> EdgeId" where
  "mk a b = EdgeId (vec_min a b) (vec_max a b)"

definition edge_less :: "EdgeId \<Rightarrow> EdgeId \<Rightarrow> bool" where
  "edge_less e other =
     (if vec_neq (v1 e) (v1 other) then vec_less (v1 e) (v1 other)
      else vec_less (v2 e) (v2 other))"

text \<open>
  \<^verbatim>\<open>map<EdgeId, EdgeInfo> edges\<close>: the entries in the order of their keys, as the map
  iterates them. \<^verbatim>\<open>edges[k].normals.push_back(N)\<close> finds the entry whose key is neither
  less nor greater than \<open>k\<close>, or inserts an empty one at its place, and appends \<open>N\<close>.
\<close>

type_synonym EdgeMap = "(EdgeId \<times> Vector3f list) list"

fun edges_push :: "EdgeId \<Rightarrow> Vector3f \<Rightarrow> EdgeMap \<Rightarrow> EdgeMap" where
  "edges_push k N [] = [(k, [N])]"
| "edges_push k N ((k', normals) # rest) =
     (if edge_less k k' then (k, [N]) # (k', normals) # rest
      else if edge_less k' k then (k', normals) # edges_push k N rest
      else (k', normals @ [N]) # rest)"

text \<open>The first loop (lines 80-90), over the faces.\<close>

fun collectEdges :: "Mesh \<Rightarrow> Face list \<Rightarrow> EdgeMap \<Rightarrow> error + EdgeMap" where
  "collectEdges mesh [] edges = Inr edges"
| "collectEdges mesh (Face i1 i2 i3 # fs) edges =
     bindE (computeNormal mesh i1 i2 i3) (\<lambda>N.
     bindE (vertex_at mesh i1) (\<lambda>va.
     bindE (vertex_at mesh i2) (\<lambda>vb.
     bindE (vertex_at mesh i3) (\<lambda>vc.
       let A = toVector3f va; B = toVector3f vb; C = toVector3f vc
       in collectEdges mesh fs
            (edges_push (mk C A) N (edges_push (mk B C) N (edges_push (mk A B) N edges)))))))"

text \<open>The second loop (lines 92-112), over the entries of the map.\<close>

fun emitBevels :: "EdgeMap \<Rightarrow> Plane list \<Rightarrow> Plane list" where
  "emitBevels [] ps = ps"
| "emitBevels ((e, normals) # rest) ps =
     (if length normals \<noteq> 2 then emitBevels rest ps
      else
        (let N1 = normals ! 0; N2 = normals ! 1
         in if dotProduct N1 N2 > 0 then emitBevels rest ps
            else
              (let N3 = normalize (vec_add N1 N2); D = dotProduct N3 (v1 e)
               in emitBevels rest (ps @ [\<lparr>normal = N3, offset = D\<rparr>]))))"

definition bevelSharpEdges :: "Mesh \<Rightarrow> Convex \<Rightarrow> error + Convex" where
  "bevelSharpEdges mesh brush =
     bindE (collectEdges mesh (faces mesh) [])
       (\<lambda>edges. Inr (brush\<lparr>planes := emitBevels edges (planes brush)\<rparr>))"

section \<open>\<^verbatim>\<open>loadRoom\<close> (lines 217-278)\<close>

text \<open>The loop over the faces that fills the brush (lines 264-270).\<close>

fun facePlanes :: "Mesh \<Rightarrow> Face list \<Rightarrow> Convex \<Rightarrow> error + Convex" where
  "facePlanes mesh [] brush = Inr brush"
| "facePlanes mesh (Face i1 i2 i3 # fs) brush =
     bindE (computeNormal mesh i1 i2 i3) (\<lambda>N.
     bindE (vertex_at mesh i1) (\<lambda>va.
       let A = toVector3f va; D = dotProduct N A
       in facePlanes mesh fs (brush\<lparr>planes := planes brush @ [\<lparr>normal = N, offset = D\<rparr>]\<rparr>)))"

text \<open>
  The body of the loop over the meshes: one mesh, and the room so far. The result is
  \<open>None\<close> when the body never ends, \<open>Some (Inl e)\<close> when it fails, and the room
  after the mesh otherwise.
\<close>

definition loadMesh :: "Room \<Rightarrow> Mesh \<Rightarrow> (error + Room) option" where
  "loadMesh r mesh =
     (if vertices mesh = [] then Some (Inr r)
      else if startsWith (name mesh) ''f.start'' then
        Some (case faces mesh of
                [] \<Rightarrow> Inl UndefinedBehaviour
              | Face i1 i2 i3 # _ \<Rightarrow>
                  bindE (vertex_at mesh i1) (\<lambda>p. case p of Vertex px py pz \<Rightarrow>
                  bindE (float_to_int px) (\<lambda>sx.
                  bindE (float_to_int py) (\<lambda>sy.
                  bindE (float_to_int pz) (\<lambda>sz.
                    Inr (r\<lparr>start := Vector3i sx sy sz\<rparr>))))))
      else if startsWith (name mesh) ''nocollide.'' then Some (Inr r)
      else if startsWith (name mesh) ''f.'' then
        (let p = vec_scale (foldl (\<lambda>p v. vec_add p (toVector3f v)) (Vector3f 0 0 0) (vertices mesh))
                   (1 / real (length (vertices mesh)))
         in case parseFormula (drop 2 (name mesh)) of
              None \<Rightarrow> None
            | Some (Inl e) \<Rightarrow> Some (Inl e)
            | Some (Inr (tn, cfg)) \<Rightarrow>
                Some (Inr (r\<lparr>things := things r @ [\<lparr>pos = p, typeName = tn, config = cfg\<rparr>]\<rparr>)))
      else
        Some (bindE (facePlanes mesh (faces mesh) \<lparr>planes = []\<rparr>) (\<lambda>brush.
              bindE (bevelSharpEdges mesh brush) (\<lambda>brush'.
                Inr (r\<lparr>colliders := colliders r @ [brush']\<rparr>)))))"

fun loadMeshes :: "Room \<Rightarrow> Mesh list \<Rightarrow> (error + Room) option" where
  "loadMeshes r [] = Some (Inr r)"
| "loadMeshes r (mesh # meshes) =
     (case loadMesh r mesh of
        None \<Rightarrow> None
      | Some (Inl e) \<Rightarrow> Some (Inl e)
      | Some (Inr r') \<Rightarrow> loadMeshes r' meshes)"

text \<open>
  \<^verbatim>\<open>importMesh(filename)\<close> is the importer, outside the loader: its result, the list of
  meshes, is the argument here.
\<close>

definition loadRoom :: "Mesh list \<Rightarrow> (error + Room) option" where
  "loadRoom meshes = loadMeshes \<lparr>start = Vector3i 0 0 2, colliders = [], things = []\<rparr> meshes"

section \<open>Definitions that follow the words of the specification\<close>

text \<open>
  Section 4.2, rule 3: "the arithmetic mean of all vertex positions".
\<close>

definition mean_position :: "Vertex list \<Rightarrow> Vector3f" where
  "mean_position vs =
     Vector3f (sum_list (map (\<lambda>v. case v of Vertex vx vy vz \<Rightarrow> vx) vs) / real (length vs))
              (sum_list (map (\<lambda>v. case v of Vertex vx vy vz \<Rightarrow> vy) vs) / real (length vs))
              (sum_list (map (\<lambda>v. case v of Vertex vx vy vz \<Rightarrow> vz) vs) / real (length vs))"

text \<open>
  Section 3: the indices of a triangle are valid into the vertices of its mesh.
\<close>

fun valid_face :: "Mesh \<Rightarrow> Face \<Rightarrow> bool" where
  "valid_face mesh (Face i1 i2 i3) =
     (0 \<le> i1 \<and> i1 < int (length (vertices mesh)) \<and>
      0 \<le> i2 \<and> i2 < int (length (vertices mesh)) \<and>
      0 \<le> i3 \<and> i3 < int (length (vertices mesh)))"

text \<open>The position of the vertex at an index of the mesh.\<close>

definition corner :: "Mesh \<Rightarrow> int \<Rightarrow> Vector3f" where
  "corner mesh i = toVector3f (vertices mesh ! nat i)"

text \<open>
  Section 4.3: the face normal is \<open>normalize (cross (B - A, C - A))\<close>, the offset is
  \<open>dot (normal, A)\<close>, for the positions \<open>A, B, C\<close> at the indices of the triangle.
\<close>

fun face_normal :: "Mesh \<Rightarrow> Face \<Rightarrow> Vector3f" where
  "face_normal mesh (Face i1 i2 i3) =
     normalize (crossProduct (vec_sub (corner mesh i2) (corner mesh i1))
                             (vec_sub (corner mesh i3) (corner mesh i1)))"

fun face_plane :: "Mesh \<Rightarrow> Face \<Rightarrow> Plane" where
  "face_plane mesh (Face i1 i2 i3) =
     \<lparr>normal = face_normal mesh (Face i1 i2 i3),
      offset = dotProduct (face_normal mesh (Face i1 i2 i3)) (corner mesh i1)\<rparr>"

text \<open>
  Section 4.4: the three edges of a triangle are undirected, that is unordered pairs of
  vertex positions, and each carries the face normal of the triangle. The normals incident
  to an edge are those of the triangles that touch it, in the order of the faces.
\<close>

fun face_sides :: "Mesh \<Rightarrow> Face \<Rightarrow> (Vector3f set \<times> Vector3f) list" where
  "face_sides mesh (Face i1 i2 i3) =
     [({corner mesh i1, corner mesh i2}, face_normal mesh (Face i1 i2 i3)),
      ({corner mesh i2, corner mesh i3}, face_normal mesh (Face i1 i2 i3)),
      ({corner mesh i3, corner mesh i1}, face_normal mesh (Face i1 i2 i3))]"

definition sides :: "Mesh \<Rightarrow> (Vector3f set \<times> Vector3f) list" where
  "sides mesh = concat (map (face_sides mesh) (faces mesh))"

definition undirected_edges :: "Mesh \<Rightarrow> Vector3f set set" where
  "undirected_edges mesh = fst ` set (sides mesh)"

definition incident_normals :: "Mesh \<Rightarrow> Vector3f set \<Rightarrow> Vector3f list" where
  "incident_normals mesh E = map snd (filter (\<lambda>(K, N). K = E) (sides mesh))"

text \<open>
  Section 4.4, step 2: the total order on positions compares x, then y, then z.
\<close>

fun lex_less :: "Vector3f \<Rightarrow> Vector3f \<Rightarrow> bool" where
  "lex_less (Vector3f ax ay az) (Vector3f bx by bz) =
     (ax < bx \<or> (ax = bx \<and> (ay < by \<or> (ay = by \<and> az < bz))))"

text \<open>The two endpoints of a key of the map, as an undirected edge.\<close>

definition endpoints :: "EdgeId \<Rightarrow> Vector3f set" where
  "endpoints e = {v1 e, v2 e}"

text \<open>
  Section 4.4, steps 3 to 5: an edge with exactly two incident normals \<open>N1, N2\<close> and
  \<open>dot (N1, N2) \<le> 0\<close> gets the plane with normal \<open>N3 = normalize (N1 + N2)\<close> and
  offset \<open>dot (N3, v1)\<close>; any other edge gets none.
\<close>

fun bevel_of :: "Vector3f list \<Rightarrow> EdgeId \<Rightarrow> Plane list" where
  "bevel_of [N1, N2] e =
     (if dotProduct N1 N2 \<le> 0
      then [\<lparr>normal = normalize (vec_add N1 N2),
             offset = dotProduct (normalize (vec_add N1 N2)) (v1 e)\<rparr>]
      else [])"
| "bevel_of _ e = []"

text \<open>Section 8: \<open>|normal|\<close>, the length of a vector.\<close>

definition magnitude :: "Vector3f \<Rightarrow> real" where
  "magnitude v = sqrt (dotProduct v v)"

text \<open>
  Section 4.1: an argument is an identifier or a quoted string, and the arguments of a
  list are separated by commas. The code also takes the empty text for an identifier.
  A quoted string is closed; it holds neither a double quote nor a NUL.
\<close>

datatype arg = Identifier string | Quoted string

fun arg_text :: "arg \<Rightarrow> string" where
  "arg_text (Identifier s) = s"
| "arg_text (Quoted body) = [dquote] @ body @ [dquote]"

fun arg_value :: "arg \<Rightarrow> string" where
  "arg_value (Identifier s) = s"
| "arg_value (Quoted body) = body"

fun well_formed_arg :: "arg \<Rightarrow> bool" where
  "well_formed_arg (Identifier s) = list_all isIdentChar s"
| "well_formed_arg (Quoted body) = (dquote \<notin> set body \<and> NUL \<notin> set body)"

fun arglist_text :: "arg list \<Rightarrow> string" where
  "arglist_text [] = []"
| "arglist_text [a] = arg_text a"
| "arglist_text (a # b # as) = arg_text a @ '','' @ arglist_text (b # as)"

text \<open>
  The text behind the last argument of a list neither closes the list nor continues it:
  it is empty, or its first character is no closing parenthesis, no comma, no character
  that would lengthen a last identifier, and no double quote in the place of an empty last
  identifier.
\<close>

fun list_stops :: "arg \<Rightarrow> string \<Rightarrow> bool" where
  "list_stops a [] = True"
| "list_stops (Identifier s) (c # tail) =
     (c \<noteq> CHR '')'' \<and> c \<noteq> CHR '','' \<and> \<not> isIdentChar c \<and> (s \<noteq> [] \<or> c \<noteq> dquote))"
| "list_stops (Quoted body) (c # tail) = (c \<noteq> CHR '')'' \<and> c \<noteq> CHR '','')"

text \<open>A coordinate whose integer part is a 32-bit \<^verbatim>\<open>int\<close>.\<close>

definition fits_int :: "real \<Rightarrow> bool" where
  "fits_int v = (- (2 ^ 31) \<le> trunc_float v \<and> trunc_float v < 2 ^ 31)"

section \<open>Auxiliary definitions for the proofs\<close>

text \<open>
  The first loop of the beveler as one fold over the incidences, and the normals that the
  map holds for a key.
\<close>

definition push_all :: "(EdgeId \<times> Vector3f) list \<Rightarrow> EdgeMap \<Rightarrow> EdgeMap" where
  "push_all inc edges = foldl (\<lambda>edges (k, N). edges_push k N edges) edges inc"

definition normals_of :: "EdgeMap \<Rightarrow> EdgeId \<Rightarrow> Vector3f list" where
  "normals_of edges e = (case map_of edges e of None \<Rightarrow> [] | Some ns \<Rightarrow> ns)"

text \<open>The edges of the faces under the keys that the code gives them.\<close>

fun face_incidences :: "Mesh \<Rightarrow> Face \<Rightarrow> (EdgeId \<times> Vector3f) list" where
  "face_incidences mesh (Face i1 i2 i3) =
     [(mk (corner mesh i1) (corner mesh i2), face_normal mesh (Face i1 i2 i3)),
      (mk (corner mesh i2) (corner mesh i3), face_normal mesh (Face i1 i2 i3)),
      (mk (corner mesh i3) (corner mesh i1), face_normal mesh (Face i1 i2 i3))]"

definition incidences :: "Mesh \<Rightarrow> (EdgeId \<times> Vector3f) list" where
  "incidences mesh = concat (map (face_incidences mesh) (faces mesh))"

definition mesh_keys :: "Mesh \<Rightarrow> EdgeId set" where
  "mesh_keys mesh = fst ` set (incidences mesh)"

definition key_normals :: "Mesh \<Rightarrow> EdgeId \<Rightarrow> Vector3f list" where
  "key_normals mesh e = map snd (filter (\<lambda>(k, N). k = e) (incidences mesh))"

text \<open>
  An argument in front of a stream that does not continue it, and the texts of an argument
  list that is not closed.
\<close>

definition behind_arg :: "arg \<Rightarrow> string \<Rightarrow> bool" where
  "behind_arg a stream =
     (stream \<noteq> [] \<and> (case a of
        Identifier s \<Rightarrow> \<not> isIdentChar (head stream) \<and> (s \<noteq> [] \<or> head stream \<noteq> dquote)
      | Quoted body \<Rightarrow> True))"

definition unclosed :: "string \<Rightarrow> bool" where
  "unclosed s = (\<exists>args tail. args \<noteq> [] \<and> list_all well_formed_arg args \<and>
      list_stops (last args) tail \<and> s = arglist_text args @ tail)"

section \<open>Example scenes\<close>

text \<open>Two spawn markers in one scene, and an entity marker with two vertices.\<close>

definition start_a :: Mesh where
  "start_a = \<lparr>name = ''f.start'', vertices = [Vertex 1 2 3], faces = [Face 0 0 0]\<rparr>"

definition start_b :: Mesh where
  "start_b = \<lparr>name = ''f.start.001'', vertices = [Vertex 4.5 (-5.5) 6], faces = [Face 0 0 0]\<rparr>"

definition door_marker :: Mesh where
  "door_marker = \<lparr>name = ''f.door(3)'', vertices = [Vertex 0 0 0, Vertex 2 4 6], faces = []\<rparr>"

definition broken_marker :: Mesh where
  "broken_marker = \<lparr>name = ''f.door(3'', vertices = [Vertex 0 0 0, Vertex 2 4 6], faces = []\<rparr>"

definition wedge :: Mesh where
  "wedge = \<lparr>name = ''wedge'',
     vertices = [Vertex 0 0 0, Vertex 1 0 0, Vertex 0 1 0, Vertex 0 0 1],
     faces = [Face 0 1 2, Face 0 3 1]\<rparr>"

definition wedge_planes :: "Plane list" where
  "wedge_planes = [\<lparr>normal = Vector3f 0 0 1, offset = 0\<rparr>, \<lparr>normal = Vector3f 0 1 0, offset = 0\<rparr>]"

definition wedge_bevel :: Plane where
  "wedge_bevel = \<lparr>normal = Vector3f 0 (1 / sqrt 2) (1 / sqrt 2), offset = 0\<rparr>"

text \<open>
  The unit cube: 8 vertices, 12 triangles wound counter-clockwise seen from outside, two
  per face. \<open>cube_edges\<close> is the map that the first loop of the beveler builds for it,
  \<open>cube_bevels\<close> the planes that the second loop adds.
\<close>

definition cube :: Mesh where
  "cube = \<lparr>name = ''cube'',
     vertices = [Vertex 0 0 0, Vertex 1 0 0, Vertex 1 1 0, Vertex 0 1 0,
                 Vertex 0 0 1, Vertex 1 0 1, Vertex 1 1 1, Vertex 0 1 1],
     faces = [Face 0 3 2, Face 0 2 1, Face 4 5 6, Face 4 6 7,
              Face 0 1 5, Face 0 5 4, Face 3 7 6, Face 3 6 2,
              Face 0 4 7, Face 0 7 3, Face 1 2 6, Face 1 6 5]\<rparr>"

definition cube_edges :: EdgeMap where
  "cube_edges =
     (let c000 = Vector3f 0 0 0; c100 = Vector3f 1 0 0; c010 = Vector3f 0 1 0;
          c001 = Vector3f 0 0 1; c110 = Vector3f 1 1 0; c101 = Vector3f 1 0 1;
          c011 = Vector3f 0 1 1; c111 = Vector3f 1 1 1;
          left = Vector3f (- 1) 0 0; front = Vector3f 0 (- 1) 0; bottom = Vector3f 0 0 (- 1);
          right = Vector3f 1 0 0; back = Vector3f 0 1 0; top = Vector3f 0 0 1
      in [(EdgeId c000 c001, [front, left]), (EdgeId c000 c010, [bottom, left]),
          (EdgeId c000 c011, [left, left]), (EdgeId c000 c100, [bottom, front]),
          (EdgeId c000 c101, [front, front]), (EdgeId c000 c110, [bottom, bottom]),
          (EdgeId c001 c011, [top, left]), (EdgeId c001 c101, [top, front]),
          (EdgeId c001 c111, [top, top]), (EdgeId c010 c011, [back, left]),
          (EdgeId c010 c110, [bottom, back]), (EdgeId c010 c111, [back, back]),
          (EdgeId c011 c111, [top, back]), (EdgeId c100 c101, [front, right]),
          (EdgeId c100 c110, [bottom, right]), (EdgeId c100 c111, [right, right]),
          (EdgeId c101 c111, [top, right]), (EdgeId c110 c111, [back, right])])"

definition cube_bevels :: "Plane list" where
  "cube_bevels =
    [\<lparr>normal = Vector3f (- (1 / sqrt 2)) (- (1 / sqrt 2)) 0, offset = 0\<rparr>,
     \<lparr>normal = Vector3f (- (1 / sqrt 2)) 0 (- (1 / sqrt 2)), offset = 0\<rparr>,
     \<lparr>normal = Vector3f 0 (- (1 / sqrt 2)) (- (1 / sqrt 2)), offset = 0\<rparr>,
     \<lparr>normal = Vector3f (- (1 / sqrt 2)) 0 (1 / sqrt 2), offset = 1 / sqrt 2\<rparr>,
     \<lparr>normal = Vector3f 0 (- (1 / sqrt 2)) (1 / sqrt 2), offset = 1 / sqrt 2\<rparr>,
     \<lparr>normal = Vector3f (- (1 / sqrt 2)) (1 / sqrt 2) 0, offset = 1 / sqrt 2\<rparr>,
     \<lparr>normal = Vector3f 0 (1 / sqrt 2) (- (1 / sqrt 2)), offset = 1 / sqrt 2\<rparr>,
     \<lparr>normal = Vector3f 0 (1 / sqrt 2) (1 / sqrt 2), offset = 2 / sqrt 2\<rparr>,
     \<lparr>normal = Vector3f (1 / sqrt 2) (- (1 / sqrt 2)) 0, offset = 1 / sqrt 2\<rparr>,
     \<lparr>normal = Vector3f (1 / sqrt 2) 0 (- (1 / sqrt 2)), offset = 1 / sqrt 2\<rparr>,
     \<lparr>normal = Vector3f (1 / sqrt 2) 0 (1 / sqrt 2), offset = 2 / sqrt 2\<rparr>,
     \<lparr>normal = Vector3f (1 / sqrt 2) (1 / sqrt 2) 0, offset = 2 / sqrt 2\<rparr>]"

text \<open>
  An edge of the cube joins two corners that differ in exactly one coordinate, a diagonal
  of a face two corners that differ in two. An entry of the map is sharp when it has two
  normals with \<open>dot \<le> 0\<close>, and smooth when it has two normals with \<open>dot > 0\<close>.
\<close>

fun differing :: "Vector3f \<Rightarrow> Vector3f \<Rightarrow> nat" where
  "differing (Vector3f ax ay az) (Vector3f bx by bz) =
     (if ax \<noteq> bx then 1 else 0) + (if ay \<noteq> by then 1 else 0) + (if az \<noteq> bz then 1 else 0)"

definition cube_edge :: "EdgeId \<times> Vector3f list \<Rightarrow> bool" where
  "cube_edge entry = (differing (v1 (fst entry)) (v2 (fst entry)) = 1)"

definition face_diagonal :: "EdgeId \<times> Vector3f list \<Rightarrow> bool" where
  "face_diagonal entry = (differing (v1 (fst entry)) (v2 (fst entry)) = 2)"

definition sharp :: "EdgeId \<times> Vector3f list \<Rightarrow> bool" where
  "sharp entry = (length (snd entry) = 2 \<and> dotProduct (snd entry ! 0) (snd entry ! 1) \<le> 0)"

definition smooth :: "EdgeId \<times> Vector3f list \<Rightarrow> bool" where
  "smooth entry = (length (snd entry) = 2 \<and> dotProduct (snd entry ! 0) (snd entry ! 1) > 0)"

section \<open>Properties of the parser\<close>

lemma bindE_Inr_iff: "bindE m f = Inr v \<longleftrightarrow> (\<exists>a. m = Inr a \<and> f a = Inr v)"
  by (cases m) (simp_all add: bindE_def)

lemma bindE_Inr [simp]: "bindE (Inr a) f = f a"
  by (simp add: bindE_def)

lemma bindE_Inl [simp]: "bindE (Inl e) f = Inl e"
  by (simp add: bindE_def)


lemma isIdentChar_not_NUL: "isIdentChar c \<Longrightarrow> c \<noteq> NUL"
  by (auto simp: isIdentChar_def isalnum_def NUL_def)

lemma head_Cons [simp]: "head (c # s) = c" and head_Nil [simp]: "head [] = NUL"
  by (simp_all add: head_def)

lemma parseString_Some_head:
  assumes "parseString r stream = Some y"
  shows "dquote \<in> set stream"
proof (rule parseString.raw_induct [where P = "\<lambda>r stream y. dquote \<in> set stream", OF _ assms])
  fix f r stream y
  assume IH: "\<And>r stream y. f r stream = Some y \<Longrightarrow> dquote \<in> set stream"
    and step: "(if fst (accept dquote stream) then Some (r, snd (accept dquote stream))
                else let c = head stream in f (r @ [c]) (snd (accept c stream))) = Some y"
  show "dquote \<in> set stream"
  proof (cases stream)
    case Nil
    with step IH [of "r @ [NUL]" "[]" y] show ?thesis
      by (simp add: accept_def)
  next
    case (Cons c s)
    with step IH [of "r @ [c]" s y] IH [of "r @ [c]" "c # s" y] show ?thesis
      by (auto simp: accept_def split: if_splits)
  qed
qed

lemma parseString_no_quote: "dquote \<notin> set stream \<Longrightarrow> parseString r stream = None"
  using parseString_Some_head by (cases "parseString r stream") auto

lemma parseIdentifier_takeWhile:
  "parseIdentifier r (s @ [NUL]) = (r @ takeWhile isIdentChar s, dropWhile isIdentChar s @ [NUL])"
proof (induction s arbitrary: r)
  case Nil
  show ?case using isIdentChar_not_NUL
    by (subst parseIdentifier.simps) auto
next
  case (Cons c s)
  show ?case using isIdentChar_not_NUL [of c]
    by (subst parseIdentifier.simps) (auto simp: Cons accept_def)
qed


lemma accept_Cons:
  "accept what (c # s) = (if c = NUL \<or> c \<noteq> what then (False, c # s) else (True, s))"
  by (simp add: accept_def)

lemma accept_end [simp]: "accept what [NUL] = (False, [NUL])"
  by (simp add: accept_def)

lemma parseArgs_unclosed_rest:
  "CHR '')'' \<notin> set s \<Longrightarrow> dquote \<notin> set s \<Longrightarrow>
   parseArgs False r (s @ [NUL]) = Some (Inl (expectError (CHR '','')))"
proof (induction "length s" arbitrary: s r rule: less_induct)
  case less
  show ?case
  proof (cases s)
    case Nil
    then show ?thesis
      by (subst parseArgs.simps) (simp add: expect_def expectError_def)
  next
    case (Cons c s')
    show ?thesis
    proof (cases "c = CHR '',''")
      case False
      with Cons less.prems show ?thesis
        by (subst parseArgs.simps) (auto simp: expect_def expectError_def accept_Cons)
    next
      case True
      let ?rest = "dropWhile isIdentChar s'"
      have short: "length ?rest < length s"
        using Cons by (simp add: length_dropWhile_le le_imp_less_Suc)
      have sub: "set ?rest \<subseteq> set s'"
        by (simp add: set_dropWhileD subsetI)
      have IH: "parseArgs False (r @ [takeWhile isIdentChar s']) (?rest @ [NUL]) = Some (Inl (expectError (CHR '','')))"
        using less.hyps [OF short] less.prems sub Cons by auto
      have "\<not> fst (accept dquote (s' @ [NUL]))"
        using less.prems Cons by (cases s') (auto simp: accept_Cons)
      then have arg: "parseArgument (s' @ [NUL]) = Some (takeWhile isIdentChar s', ?rest @ [NUL])"
        by (simp add: parseArgument_def parseIdentifier_takeWhile)
      show ?thesis
        using True Cons arg IH
        by (subst parseArgs.simps) (simp add: expect_def accept_Cons NUL_def)
    qed
  qed
qed

lemma parseArgs_unclosed:
  assumes "CHR '')'' \<notin> set s" and "dquote \<notin> set s"
  shows "parseArgs True r (s @ [NUL]) = Some (Inl (expectError (CHR '','')))"
proof -
  let ?rest = "dropWhile isIdentChar s"
  have sub: "set ?rest \<subseteq> set s"
    by (simp add: set_dropWhileD subsetI)
  have "\<not> fst (accept dquote (s @ [NUL]))"
    using assms by (cases s) (auto simp: accept_Cons)
  then have arg: "parseArgument (s @ [NUL]) = Some (takeWhile isIdentChar s, ?rest @ [NUL])"
    by (simp add: parseArgument_def parseIdentifier_takeWhile)
  have "parseArgs False (r @ [takeWhile isIdentChar s]) (?rest @ [NUL]) = Some (Inl (expectError (CHR '','')))"
    using parseArgs_unclosed_rest [of ?rest] assms sub by auto
  moreover have "\<not> fst (accept (CHR '')'') (s @ [NUL]))"
    using assms by (cases s) (auto simp: accept_Cons)
  ultimately show ?thesis
    using arg by (subst parseArgs.simps) simp
qed

lemma not_isIdentChar_paren [simp]: "\<not> isIdentChar (CHR ''('')"
  by (simp add: isIdentChar_def isalnum_def)

lemma parseCall_open:
  assumes "\<forall>c\<in>set ident. isIdentChar c"
  shows "parseCall (ident @ ''('' @ rest) = parseArgs True [ident] (rest @ [NUL])"
proof -
  have "takeWhile isIdentChar (ident @ CHR ''('' # rest) = ident"
    and "dropWhile isIdentChar (ident @ CHR ''('' # rest) = CHR ''('' # rest"
    using assms by (simp_all add: takeWhile_append2 dropWhile_append2)
  then have "parseIdentifier [] ((ident @ ''('' @ rest) @ [NUL]) = (ident, CHR ''('' # rest @ [NUL])"
    using parseIdentifier_takeWhile [of "[]" "ident @ ''('' @ rest"] by simp
  then show ?thesis
    by (simp add: parseCall_def accept_Cons NUL_def)
qed

lemma parseCall_unclosed:
  assumes "\<forall>c\<in>set ident. isIdentChar c" and "CHR '')'' \<notin> set rest" and "dquote \<notin> set rest"
  shows "parseCall (ident @ ''('' @ rest) = Some (Inl (expectError (CHR '','')))"
  using parseCall_open [OF assms(1), of rest] parseArgs_unclosed [OF assms(2,3)] by simp

lemma parseCall_open_string:
  assumes "\<forall>c\<in>set ident. isIdentChar c" and "dquote \<notin> set body"
  shows "parseCall (ident @ ''('' @ [dquote] @ body) = None"
proof -
  have "parseArgument (dquote # body @ [NUL]) = None"
    using assms by (simp add: parseArgument_def accept_Cons NUL_def dquote_def parseString_no_quote)
  then have "parseArgs True [ident] (dquote # body @ [NUL]) = None"
    by (subst parseArgs.simps) (simp add: accept_Cons dquote_def)
  then show ?thesis
    using parseCall_open [OF assms(1), of "[dquote] @ body"] by simp
qed


lemma accept_Nil [simp]: "accept what [] = (False, [])"
  by (simp add: accept_def)

lemma parseString_body:
  "dquote \<notin> set body \<Longrightarrow> NUL \<notin> set body \<Longrightarrow>
   parseString r (body @ dquote # rest) = Some (r @ body, rest)"
proof (induction body arbitrary: r)
  case Nil
  show ?case by (subst parseString.simps) (simp add: accept_Cons dquote_def NUL_def)
next
  case (Cons c body)
  then have "parseString (r @ [c]) (body @ dquote # rest) = Some ((r @ [c]) @ body, rest)"
    by simp
  moreover have "c \<noteq> dquote" "c \<noteq> NUL" using Cons.prems by auto
  ultimately show ?case
    by (subst parseString.simps) (simp add: accept_Cons)
qed

lemma isIdentChar_simps [simp]:
  "\<not> isIdentChar (CHR '','')" "\<not> isIdentChar (CHR '')'')" "\<not> isIdentChar dquote" "\<not> isIdentChar NUL"
  by (simp_all add: isIdentChar_def isalnum_def dquote_def NUL_def)

lemma parseIdentifier_prefix:
  assumes "list_all isIdentChar s" and "stream \<noteq> []" and "\<not> isIdentChar (head stream)"
    and "last stream = NUL"
  shows "parseIdentifier [] (s @ stream) = (s, stream)"
proof -
  obtain pre where pre: "stream = pre @ [NUL]"
    using assms(2,4) by (metis append_butlast_last_id)
  have "pre = [] \<or> \<not> isIdentChar (hd pre)"
    using assms(3) pre by (cases pre) auto
  then have "takeWhile isIdentChar (s @ pre) = s" "dropWhile isIdentChar (s @ pre) = pre"
    using assms(1) by (cases pre; simp add: list_all_iff takeWhile_append2 dropWhile_append2)+
  then show ?thesis
    using parseIdentifier_takeWhile [of "[]" "s @ pre"] pre by simp
qed

lemma parseArgument_arg:
  assumes "well_formed_arg a" and "behind_arg a stream" and "last stream = NUL"
  shows "parseArgument (arg_text a @ stream) = Some (arg_value a, stream)"
proof -
  obtain c cs where stream: "stream = c # cs"
    using assms(2) by (cases stream) (auto simp: behind_arg_def)
  show ?thesis
  proof (cases a)
    case (Identifier s)
    have nq: "\<not> fst (accept dquote (s @ stream))"
    proof (cases s)
      case Nil
      then show ?thesis using assms(2) Identifier stream by (auto simp: behind_arg_def accept_Cons)
    next
      case (Cons d ds)
      then have "isIdentChar d" using assms(1) Identifier by simp
      then have "d \<noteq> dquote" by auto
      then show ?thesis using Cons by (simp add: accept_Cons)
    qed
    have "parseIdentifier [] (s @ stream) = (s, stream)"
      using parseIdentifier_prefix [of s stream] assms Identifier stream
      by (simp add: behind_arg_def)
    with nq Identifier show ?thesis by (simp add: parseArgument_def)
  next
    case (Quoted body)
    then show ?thesis using assms(1) parseString_body [of body "[]" stream]
      by (simp add: parseArgument_def accept_Cons dquote_def NUL_def)
  qed
qed

lemma not_close_arg:
  assumes "well_formed_arg a" and "stream \<noteq> []" and "head stream \<noteq> CHR '')''"
  shows "\<not> fst (accept (CHR '')'') (arg_text a @ stream))"
proof (cases a)
  case (Identifier s)
  show ?thesis
  proof (cases s)
    case Nil
    then show ?thesis using Identifier assms(2,3) by (cases stream) (auto simp: accept_Cons)
  next
    case (Cons d ds)
    then have "isIdentChar d" using assms(1) Identifier by simp
    then have "d \<noteq> CHR '')''" by auto
    then show ?thesis using Cons Identifier by (simp add: accept_Cons)
  qed
next
  case (Quoted body)
  then show ?thesis by (simp add: accept_Cons dquote_def)
qed

lemma parseArgs_first_arg:
  assumes "well_formed_arg a" and "behind_arg a stream" and "last stream = NUL"
    and "head stream \<noteq> CHR '')''"
  shows "parseArgs True r (arg_text a @ stream) = parseArgs False (r @ [arg_value a]) stream"
    and "parseArgs False r (CHR '','' # arg_text a @ stream) = parseArgs False (r @ [arg_value a]) stream"
proof -
  have ne: "stream \<noteq> []" using assms(2) by (simp add: behind_arg_def)
  have arg: "parseArgument (arg_text a @ stream) = Some (arg_value a, stream)"
    using parseArgument_arg [OF assms(1,2,3)] .
  have nc: "\<not> fst (accept (CHR '')'') (arg_text a @ stream))"
    using not_close_arg [OF assms(1) ne assms(4)] .
  show "parseArgs True r (arg_text a @ stream) = parseArgs False (r @ [arg_value a]) stream"
    using arg nc by (subst parseArgs.simps) simp
  show "parseArgs False r (CHR '','' # arg_text a @ stream) = parseArgs False (r @ [arg_value a]) stream"
    using arg by (subst parseArgs.simps) (simp add: accept_Cons expect_def NUL_def)
qed

lemma parseArgs_stops:
  assumes "list_stops a tail"
  shows "parseArgs False r (tail @ [NUL]) = Some (Inl (expectError (CHR '','')))"
proof (cases tail)
  case Nil
  then show ?thesis by (subst parseArgs.simps) (simp add: expect_def)
next
  case (Cons c cs)
  with assms have "c \<noteq> CHR '')''" "c \<noteq> CHR '',''" by (cases a; simp)+
  with Cons show ?thesis by (subst parseArgs.simps) (simp add: accept_Cons expect_def)
qed



lemma NUL_not_dquote [simp]: "NUL \<noteq> dquote" "dquote \<noteq> NUL"
  by (simp_all add: NUL_def dquote_def)

lemma behind_last:
  assumes "list_stops a tail"
  shows "behind_arg a (tail @ [NUL])" and "head (tail @ [NUL]) \<noteq> CHR '')''"
proof -
  show "behind_arg a (tail @ [NUL])"
    using assms by (cases a; cases tail) (simp_all add: behind_arg_def)
  show "head (tail @ [NUL]) \<noteq> CHR '')''"
    using assms by (cases a; cases tail) (simp_all add: NUL_def)
qed

lemma behind_comma:
  "behind_arg a (CHR '','' # stream)" "head (CHR '','' # stream) \<noteq> CHR '')''"
proof -
  show "behind_arg a (CHR '','' # stream)"
    by (cases a) (simp_all add: behind_arg_def dquote_def)
  show "head (CHR '','' # stream) \<noteq> CHR '')''"
    by simp
qed



lemma parseArgs_arglist:
  assumes "args \<noteq> []" and "list_all well_formed_arg args" and "list_stops (last args) tail"
  shows "parseArgs True r (arglist_text args @ tail @ [NUL]) = Some (Inl (expectError (CHR '','')))
       \<and> parseArgs False r (CHR '','' # arglist_text args @ tail @ [NUL]) =
           Some (Inl (expectError (CHR '','')))"
  using assms
proof (induction args arbitrary: r rule: arglist_text.induct)
  case 1
  then show ?case by simp
next
  case (2 a)
  then have wf: "well_formed_arg a" and st: "list_stops a tail" by simp_all
  have l: "last (tail @ [NUL]) = NUL" by simp
  show ?case
    using parseArgs_first_arg [OF wf behind_last(1) [OF st] l behind_last(2) [OF st], of r]
      parseArgs_stops [OF st]
    by simp
next
  case (3 a b as)
  then have wf: "well_formed_arg a" by simp
  let ?rest = "arglist_text (b # as) @ tail @ [NUL]"
  have l: "last (CHR '','' # ?rest) = NUL" by simp
  have IH: "parseArgs False (r @ [arg_value a]) (CHR '','' # ?rest) =
      Some (Inl (expectError (CHR '','')))"
    using "3.IH" [of "r @ [arg_value a]"] "3.prems" by simp
  show ?case
    using parseArgs_first_arg [OF wf behind_comma(1) l behind_comma(2), of r] IH
    by simp
qed



lemma parseIdentifier_result:
  "parseIdentifier r s = (r', s') \<Longrightarrow>
   \<exists>v. r' = r @ v \<and> s = v @ s' \<and> list_all isIdentChar v \<and> \<not> isIdentChar (head s')"
proof (induction r s arbitrary: r' s' rule: parseIdentifier.induct)
  case (1 r stream)
  show ?case
  proof (cases "isIdentChar (head stream)")
    case False
    with "1.prems" show ?thesis
      by (subst (asm) parseIdentifier.simps) auto
  next
    case True
    then have nn: "head stream \<noteq> NUL" by (rule isIdentChar_not_NUL)
    then obtain c cs where s: "stream = c # cs" by (cases stream) auto
    with nn have c: "c \<noteq> NUL" by simp
    have step: "parseIdentifier (r @ [c]) cs = (r', s')"
      using "1.prems" True s c by (subst (asm) parseIdentifier.simps) (simp add: accept_Cons)
    have "snd (accept (head stream) stream) = cs"
      using s c by (simp add: accept_Cons)
    with "1.IH" [OF True refl, of r' s'] step s
    obtain v where "r' = (r @ [c]) @ v" "cs = v @ s'" "list_all isIdentChar v"
      "\<not> isIdentChar (head s')"
      by auto
    then show ?thesis using True s
      by (intro exI [of _ "c # v"]) simp
  qed
qed

lemma parseString_result:
  assumes "parseString r s = Some (r', s')"
  shows "\<exists>b. r' = r @ b \<and> s = b @ dquote # s' \<and> dquote \<notin> set b \<and> NUL \<notin> set b"
proof -
  have "\<exists>b. fst y = r @ b \<and> s = b @ dquote # snd y \<and> dquote \<notin> set b \<and> NUL \<notin> set b"
    if "parseString r s = Some y" for y
  proof (rule parseString.raw_induct [where P = "\<lambda>r s y.
      \<exists>b. fst y = r @ b \<and> s = b @ dquote # snd y \<and> dquote \<notin> set b \<and> NUL \<notin> set b", OF _ that])
    fix f r stream y
    assume IH: "\<And>r s y. f r s = Some y \<Longrightarrow>
        \<exists>b. fst y = r @ b \<and> s = b @ dquote # snd y \<and> dquote \<notin> set b \<and> NUL \<notin> set b"
      and step: "(if fst (accept dquote stream) then Some (r, snd (accept dquote stream))
                else let c = head stream in f (r @ [c]) (snd (accept c stream))) = Some y"
    show "\<exists>b. fst y = r @ b \<and> stream = b @ dquote # snd y \<and> dquote \<notin> set b \<and> NUL \<notin> set b"
    proof (cases stream)
      case Nil
      with step IH [of "r @ [NUL]" "[]" y] show ?thesis
        by (simp add: accept_def)
    next
      case (Cons c cs)
      show ?thesis
      proof (cases "c = NUL")
        case True
        with step Cons have "f (r @ [NUL]) (NUL # cs) = Some y"
          by (simp add: accept_Cons)
        from IH [OF this] obtain b where b: "NUL # cs = b @ dquote # snd y" "NUL \<notin> set b"
          by blast
        then have False by (cases b) auto
        then show ?thesis ..
      next
        case nn: False
        show ?thesis
        proof (cases "c = dquote")
          case True
          with step Cons nn show ?thesis
            by (intro exI [of _ "[]"]) (auto simp: accept_Cons)
        next
          case False
          with step Cons nn have "f (r @ [c]) cs = Some y"
            by (simp add: accept_Cons)
          from IH [OF this] obtain b where "fst y = (r @ [c]) @ b" "cs = b @ dquote # snd y"
            "dquote \<notin> set b" "NUL \<notin> set b"
            by blast
          then show ?thesis using Cons nn False
            by (intro exI [of _ "c # b"]) auto
        qed
      qed
    qed
  qed
  from this [OF assms] show ?thesis by simp
qed

lemma parseArgument_result:
  assumes "parseArgument s = Some (v, s')"
  shows "\<exists>a. well_formed_arg a \<and> arg_value a = v \<and> s = arg_text a @ s' \<and>
     (s' = [] \<or> list_stops a s' \<or> head s' = CHR '')'' \<or> head s' = CHR '','')"
proof (cases "fst (accept dquote s)")
  case True
  then obtain cs where s: "s = dquote # cs"
    by (cases s) (auto simp: accept_Cons split: if_splits)
  with assms True have "parseString [] cs = Some (v, s')"
    by (simp add: parseArgument_def accept_Cons)
  from parseString_result [OF this] obtain b where
    "v = b" "cs = b @ dquote # s'" "dquote \<notin> set b" "NUL \<notin> set b"
    by auto
  then show ?thesis using s
    by (intro exI [of _ "Quoted b"]) (cases s'; auto)
next
  case False
  with assms have "parseIdentifier [] s = (v, s')"
    by (simp add: parseArgument_def)
  from parseIdentifier_result [OF this] have
    v: "s = v @ s'" "list_all isIdentChar v" "\<not> isIdentChar (head s')"
    by auto
  have "v \<noteq> [] \<or> head s' \<noteq> dquote"
  proof (cases v)
    case Nil
    with v(1) False show ?thesis
      by (cases s') (auto simp: accept_Cons split: if_splits)
  qed simp
  with v show ?thesis
    by (intro exI [of _ "Identifier v"]) (cases s'; auto)
qed

lemma unclosed_one:
  assumes "well_formed_arg a" and "s = arg_text a @ s'"
    and "s' = [] \<or> list_stops a s' \<or> head s' = CHR '')'' \<or> head s' = CHR '',''"
    and "head s' \<noteq> CHR '')''" and "head s' \<noteq> CHR '',''"
  shows "unclosed s"
proof -
  have "list_stops a s'" using assms(3,4,5) by (cases s') auto
  then show ?thesis
    unfolding unclosed_def using assms(1,2)
    by (intro exI [of _ "[a]"] exI [of _ s']) simp
qed

lemma unclosed_more:
  assumes "well_formed_arg a" and "s = arg_text a @ CHR '','' # s'" and "unclosed s'"
  shows "unclosed s"
proof -
  from assms(3) obtain args tail where a: "args \<noteq> []" "list_all well_formed_arg args"
    "list_stops (last args) tail" "s' = arglist_text args @ tail"
    unfolding unclosed_def by blast
  obtain b bs where args: "args = b # bs" using a(1) by (cases args) auto
  show ?thesis
    unfolding unclosed_def using a assms(1,2) args
    by (intro exI [of _ "a # args"] exI [of _ tail]) simp
qed

lemma parseArgs_raises:
  assumes "parseArgs first r s = Some (Inl e)"
  shows "e = expectError (CHR '','') \<and>
     (if first then unclosed s
      else (head s \<noteq> CHR '')'' \<and> head s \<noteq> CHR '','') \<or> (\<exists>s'. s = CHR '','' # s' \<and> unclosed s'))"
proof -
  let ?P = "\<lambda>first (r :: string list) s y. \<forall>e. y = Inl e \<longrightarrow> e = expectError (CHR '','') \<and>
     (if first then unclosed s
      else (head s \<noteq> CHR '')'' \<and> head s \<noteq> CHR '','') \<or> (\<exists>s'. s = CHR '','' # s' \<and> unclosed s'))"
  have "?P first r s y" if "parseArgs first r s = Some y" for y
  proof (rule parseArgs.raw_induct [where P = ?P, OF _ that])
    fix f first r stream y
    assume IH: "\<And>first r s y. f first r s = Some y \<Longrightarrow> ?P first r s y"
      and step: "(if fst (accept (CHR '')'') stream) then Some (Inr r)
        else case if \<not> first then expect (CHR '','') stream else Inr stream of
           Inl e \<Rightarrow> Some (Inl e)
           | Inr stream' \<Rightarrow>
               Option.bind (parseArgument stream')
                (\<lambda>(a, stream''). f False (r @ [a]) stream'')) = Some y"
    show "?P first r stream y"
    proof (intro allI impI)
      fix e assume y: "y = Inl e"
      with step have nc: "\<not> fst (accept (CHR '')'') stream)"
        by (auto split: if_splits)
      have after: "e = expectError (CHR '','') \<and> unclosed s0"
        if arg: "parseArgument s0 = Some (v, s1)" and rec: "f False (r @ [v]) s1 = Some (Inl e)"
        for s0 v s1
      proof -
        from IH [OF rec] have e: "e = expectError (CHR '','')" and
          c: "(head s1 \<noteq> CHR '')'' \<and> head s1 \<noteq> CHR '','') \<or> (\<exists>s'. s1 = CHR '','' # s' \<and> unclosed s')"
          by auto
        from parseArgument_result [OF arg] obtain a where a: "well_formed_arg a"
          "s0 = arg_text a @ s1"
          "s1 = [] \<or> list_stops a s1 \<or> head s1 = CHR '')'' \<or> head s1 = CHR '',''"
          by blast
        from c have "unclosed s0"
        proof
          assume "head s1 \<noteq> CHR '')'' \<and> head s1 \<noteq> CHR '',''"
          then show ?thesis using unclosed_one [OF a] by blast
        next
          assume "\<exists>s'. s1 = CHR '','' # s' \<and> unclosed s'"
          then show ?thesis using unclosed_more [OF a(1)] a(2) by blast
        qed
        with e show ?thesis by simp
      qed
      show "e = expectError (CHR '','') \<and>
         (if first then unclosed stream
          else (head stream \<noteq> CHR '')'' \<and> head stream \<noteq> CHR '','') \<or>
               (\<exists>s'. stream = CHR '','' # s' \<and> unclosed s'))"
      proof (cases first)
        case True
        with step y nc obtain v s1 where "parseArgument stream = Some (v, s1)"
          "f False (r @ [v]) s1 = Some (Inl e)"
          by (auto simp: bind_eq_Some_conv)
        from after [OF this] True show ?thesis by simp
      next
        case False
        show ?thesis
        proof (cases "fst (accept (CHR '','') stream)")
          case nacc: False
          with step y nc False have e: "e = expectError (CHR '','')"
            by (simp add: expect_def)
          have "head stream \<noteq> CHR '')'' \<and> head stream \<noteq> CHR '',''"
            using nc nacc by (cases stream) (auto simp: accept_Cons NUL_def split: if_splits)
          with e False show ?thesis by simp
        next
          case acc: True
          then obtain s' where s: "stream = CHR '','' # s'"
            by (cases stream) (auto simp: accept_Cons split: if_splits)
          with step y nc False acc obtain v s1 where "parseArgument s' = Some (v, s1)"
            "f False (r @ [v]) s1 = Some (Inl e)"
            by (auto simp: expect_def accept_Cons NUL_def bind_eq_Some_conv)
          from after [OF this] False s show ?thesis by simp
        qed
      qed
    qed
  qed
  from this [OF assms] show ?thesis by blast
qed


lemma arg_text_no_NUL: "well_formed_arg a \<Longrightarrow> NUL \<notin> set (arg_text a)"
  by (cases a) (auto simp: list_all_iff dest: isIdentChar_not_NUL)

lemma arglist_text_no_NUL: "list_all well_formed_arg args \<Longrightarrow> NUL \<notin> set (arglist_text args)"
proof (induction args rule: arglist_text.induct)
  case 1
  show ?case by simp
next
  case (2 a)
  then show ?case using arg_text_no_NUL [of a] by simp
next
  case (3 a b as)
  then have "NUL \<notin> set (arglist_text (b # as))" by simp
  moreover have "NUL \<notin> set (arg_text a)" using 3 arg_text_no_NUL [of a] by simp
  moreover have "NUL \<noteq> CHR '',''" by (simp add: NUL_def)
  ultimately show ?case by auto
qed

lemma unclosed_terminated:
  assumes "unclosed (rest @ [NUL])"
  shows "\<exists>args tail. args \<noteq> [] \<and> list_all well_formed_arg args \<and>
     list_stops (last args) tail \<and> rest = arglist_text args @ tail"
proof -
  from assms obtain args tail where a: "args \<noteq> []" "list_all well_formed_arg args"
    "list_stops (last args) tail" "rest @ [NUL] = arglist_text args @ tail"
    unfolding unclosed_def by blast
  have "tail \<noteq> []"
  proof
    assume "tail = []"
    with a(4) have "NUL \<in> set (arglist_text args)"
      by (metis append_Nil2 in_set_conv_decomp)
    with arglist_text_no_NUL [OF a(2)] show False by simp
  qed
  then obtain t l where t: "tail = t @ [l]"
    by (cases tail rule: rev_cases) auto
  with a(4) have eq: "rest @ [NUL] = (arglist_text args @ t) @ [l]"
    by simp
  then have rest: "rest = arglist_text args @ t"
    by (simp only: append1_eq_conv)
  have "list_stops (last args) t"
  proof (cases t)
    case Nil
    then show ?thesis by simp
  next
    case (Cons c cs)
    with t have "tail = c # (cs @ [l])" by simp
    with a(3) Cons show ?thesis by (cases "last args") auto
  qed
  with a(1,2) rest show ?thesis by blast
qed

lemma parseCall_raises_only_unclosed:
  assumes "\<forall>c\<in>set ident. isIdentChar c"
    and "parseCall (ident @ ''('' @ rest) = Some (Inl e)"
  shows "e = expectError (CHR '','') \<and>
     (\<exists>args tail. args \<noteq> [] \<and> list_all well_formed_arg args \<and>
        list_stops (last args) tail \<and> rest = arglist_text args @ tail)"
proof -
  have "parseArgs True [ident] (rest @ [NUL]) = Some (Inl e)"
    using parseCall_open [OF assms(1), of rest] assms(2) by simp
  from parseArgs_raises [OF this] unclosed_terminated show ?thesis
    by simp
qed


lemma digit_inj: "a < 10 \<Longrightarrow> b < 10 \<Longrightarrow> digit a = digit b \<Longrightarrow> a = b"
proof -
  assume "a < 10" "b < 10" "digit a = digit b"
  then have "(of_char (digit a) :: nat) = of_char (digit b)" by simp
  with \<open>a < 10\<close> \<open>b < 10\<close> show ?thesis by (simp add: digit_def)
qed

lemma to_string_nonempty: "to_string n \<noteq> []"
  by (subst to_string.simps) simp

lemma to_string_inj: "to_string m = to_string n \<Longrightarrow> m = n"
proof (induction m arbitrary: n rule: to_string.induct)
  case (1 m)
  show ?case
  proof (cases "m < 10")
    case True
    show ?thesis
    proof (cases "n < 10")
      case True
      with \<open>m < 10\<close> "1.prems" show ?thesis
        by (simp add: to_string.simps [of m] to_string.simps [of n] digit_inj)
    next
      case False
      with \<open>m < 10\<close> "1.prems" to_string_nonempty [of "n div 10"] show ?thesis
        by (simp add: to_string.simps [of m] to_string.simps [of n])
    qed
  next
    case False
    show ?thesis
    proof (cases "n < 10")
      case True
      with \<open>\<not> m < 10\<close> "1.prems" to_string_nonempty [of "m div 10"] show ?thesis
        by (simp add: to_string.simps [of m] to_string.simps [of n])
    next
      case nge: False
      from False nge "1.prems"
      have eq: "to_string (m div 10) = to_string (n div 10)" "digit (m mod 10) = digit (n mod 10)"
        by (simp_all add: to_string.simps [of m] to_string.simps [of n])
      have "m div 10 = n div 10" using "1.IH" [OF False eq(1)] .
      moreover have "m mod 10 = n mod 10" using eq(2) by (simp add: digit_inj)
      ultimately show ?thesis by (metis div_mult_mod_eq)
    qed
  qed
qed

lemma fillConfig_other:
  "(\<forall>j < length ws. k \<noteq> to_string (i + j)) \<Longrightarrow> fillConfig i ws r k = r k"
proof (induction ws arbitrary: i r)
  case Nil
  show ?case by simp
next
  case (Cons w ws)
  have "\<forall>j < length ws. k \<noteq> to_string (Suc i + j)"
    using Cons.prems by (metis add_Suc_shift length_Cons Suc_less_eq)
  moreover have "k \<noteq> to_string i" using Cons.prems [rule_format, of 0] by simp
  ultimately show ?case using Cons.IH [of "Suc i"] by simp
qed

lemma fillConfig_at:
  "j < length ws \<Longrightarrow> fillConfig i ws r (to_string (i + j)) = Some (ws ! j)"
proof (induction ws arbitrary: i r j)
  case Nil
  then show ?case by simp
next
  case (Cons w ws)
  show ?case
  proof (cases j)
    case 0
    have "\<forall>j' < length ws. to_string i \<noteq> to_string (Suc i + j')"
      using to_string_inj by fastforce
    then show ?thesis using 0 fillConfig_other [of ws "to_string i" "Suc i"] by simp
  next
    case (Suc j')
    then show ?thesis using Cons.IH [of j' "Suc i"] Cons.prems by simp
  qed
qed

lemma fillConfig_dom:
  "dom (fillConfig i ws r) = dom r \<union> to_string ` {i ..< i + length ws}"
proof (induction ws arbitrary: i r)
  case Nil
  show ?case by simp
next
  case (Cons w ws)
  have "{i ..< i + length (w # ws)} = insert i {Suc i ..< Suc i + length ws}"
    by auto
  then show ?case using Cons.IH [of "Suc i"] by auto
qed

lemma parseArgs_extends:
  assumes "parseArgs first r stream = Some (Inr ws)"
  shows "take (length r) ws = r"
proof -
  have "\<forall>ws. y = Inr ws \<longrightarrow> take (length r) ws = r"
    if "parseArgs first r stream = Some y" for y
  proof (rule parseArgs.raw_induct
      [where P = "\<lambda>first r stream y. \<forall>ws. y = Inr ws \<longrightarrow> take (length r) ws = r", OF _ that])
    fix f first r stream y
    assume IH: "\<And>first r stream y. f first r stream = Some y \<Longrightarrow> \<forall>ws. y = Inr ws \<longrightarrow> take (length r) ws = r"
      and step: "(if fst (accept (CHR '')'') stream) then Some (Inr r)
        else case if \<not> first then expect (CHR '','') stream else Inr stream of
           Inl e \<Rightarrow> Some (Inl e)
           | Inr stream' \<Rightarrow>
               Option.bind (parseArgument stream')
                (\<lambda>(a, stream''). f False (r @ [a]) stream'')) = Some y"
    show "\<forall>ws. y = Inr ws \<longrightarrow> take (length r) ws = r"
    proof (intro allI impI)
      fix ws assume y: "y = Inr ws"
      show "take (length r) ws = r"
      proof (cases "fst (accept (CHR '')'') stream)")
        case True
        with step y show ?thesis by simp
      next
        case False
        with step y obtain stream' a stream'' where
          "parseArgument stream' = Some (a, stream'')" "f False (r @ [a]) stream'' = Some (Inr ws)"
          by (auto split: sum.splits if_splits simp: bind_eq_Some_conv)
        then have "take (length (r @ [a])) ws = r @ [a]" using IH by blast
        then show ?thesis
          by (metis append_eq_conv_conj length_append take_add append_assoc take_all_iff le_add1 append_take_drop_id)
      qed
    qed
  qed
  with assms show ?thesis by blast
qed


lemma parseCall_nonempty: "parseCall content = Some (Inr words) \<Longrightarrow> words \<noteq> []"
proof -
  assume ok: "parseCall content = Some (Inr words)"
  obtain ident stream1 where pi: "parseIdentifier [] (content @ [NUL]) = (ident, stream1)"
    by (cases "parseIdentifier [] (content @ [NUL])")
  show ?thesis
  proof (cases "fst (accept (CHR ''('') stream1)")
    case True
    with ok pi have "parseArgs True [ident] (snd (accept (CHR ''('') stream1)) = Some (Inr words)"
      by (simp add: parseCall_def)
    from parseArgs_extends [OF this] show ?thesis by auto
  next
    case False
    with ok pi show ?thesis by (auto simp: parseCall_def)
  qed
qed

section \<open>Properties of the loop over the meshes\<close>

lemma loadMeshes_append:
  "loadMeshes r (xs @ ys) =
     (case loadMeshes r xs of
        None \<Rightarrow> None
      | Some (Inl e) \<Rightarrow> Some (Inl e)
      | Some (Inr r') \<Rightarrow> loadMeshes r' ys)"
  by (induction xs arbitrary: r) (auto split: option.splits sum.splits)

lemma foldl_vec_add:
  "foldl (\<lambda>p v. vec_add p (toVector3f v)) (Vector3f a b c) vs =
     Vector3f (a + sum_list (map (\<lambda>v. case v of Vertex vx vy vz \<Rightarrow> vx) vs))
              (b + sum_list (map (\<lambda>v. case v of Vertex vx vy vz \<Rightarrow> vy) vs))
              (c + sum_list (map (\<lambda>v. case v of Vertex vx vy vz \<Rightarrow> vz) vs))"
proof (induction vs arbitrary: a b c)
  case Nil
  show ?case by simp
next
  case (Cons v vs)
  show ?case by (cases v) (simp add: Cons.IH add.assoc)
qed

lemma mean_position_fold:
  "vec_scale (foldl (\<lambda>p v. vec_add p (toVector3f v)) (Vector3f 0 0 0) vs) (1 / real (length vs)) =
     mean_position vs"
  by (simp add: foldl_vec_add mean_position_def)

lemma startsWith_f_not_nocollide: "startsWith s ''f.'' \<Longrightarrow> \<not> startsWith s ''nocollide.''"
  by (cases s) (auto simp: startsWith_def)

lemma loadMesh_formula:
  assumes "vertices mesh \<noteq> []" and "\<not> startsWith (name mesh) ''f.start''"
    and "startsWith (name mesh) ''f.''"
  shows "loadMesh r mesh =
     (case parseFormula (drop 2 (name mesh)) of
        None \<Rightarrow> None
      | Some (Inl e) \<Rightarrow> Some (Inl e)
      | Some (Inr (tn, cfg)) \<Rightarrow>
          Some (Inr (r\<lparr>things := things r @
            [\<lparr>pos = mean_position (vertices mesh), typeName = tn, config = cfg\<rparr>]\<rparr>)))"
  using assms startsWith_f_not_nocollide [OF assms(3)]
  by (simp add: loadMesh_def mean_position_fold)

lemma startsWith_start_f: "startsWith s ''f.start'' \<Longrightarrow> startsWith s ''f.''"
proof -
  assume "startsWith s ''f.start''"
  then have "take (length ''f.start'') s = ''f.start''" by (simp only: startsWith_def)
  then have "take (length ''f.'') (take (length ''f.start'') s) = ''f.''" by simp
  then have "take (length ''f.'') s = ''f.''" by (simp add: take_take del: take_Suc_Cons)
  then show ?thesis by (simp only: startsWith_def)
qed

lemma loadMesh_collider:
  assumes "vertices mesh \<noteq> []"
    and "\<not> startsWith (name mesh) ''nocollide.''" and "\<not> startsWith (name mesh) ''f.''"
  shows "loadMesh r mesh =
     Some (bindE (facePlanes mesh (faces mesh) \<lparr>planes = []\<rparr>) (\<lambda>brush.
           bindE (bevelSharpEdges mesh brush) (\<lambda>brush'.
             Inr (r\<lparr>colliders := colliders r @ [brush']\<rparr>))))"
proof -
  have "\<not> startsWith (name mesh) ''f.start''"
    using assms(3) startsWith_start_f by blast
  then show ?thesis using assms by (simp add: loadMesh_def)
qed

section \<open>Claims about the parser\<close>

text \<open>
  Claim C7 says that \<^verbatim>\<open>parseCall\<close> returns or throws on every text, also on one with an
  unterminated quoted string such as \<^verbatim>\<open>x("abc\<close>. On that text \<^verbatim>\<open>parseString\<close> reaches
  the NUL, where \<^verbatim>\<open>accept\<close> refuses every character, and its loop never exits: neither
  \<^verbatim>\<open>parseCall\<close> nor \<^verbatim>\<open>loadRoom\<close> on a mesh of that name returns or throws.
\<close>

theorem parseCall_unterminated_string_never_returns:
  "parseCall (''x('' @ [dquote] @ ''abc'') = None \<and>
   loadRoom [\<lparr>name = ''f.x('' @ [dquote] @ ''abc'', vertices = [Vertex 0 0 0], faces = []\<rparr>] = None"
proof -
  have p: "parseCall (''x('' @ [dquote] @ ''abc'') = None"
    using parseCall_open_string [of "''x''" "''abc''"]
    by (simp add: isIdentChar_def isalnum_def dquote_def)
  then have "parseFormula (''x('' @ [dquote] @ ''abc'') = None"
    by (simp add: parseFormula_def)
  then have "loadRoom [\<lparr>name = ''f.x('' @ [dquote] @ ''abc'', vertices = [Vertex 0 0 0], faces = []\<rparr>] = None"
    by (simp add: loadRoom_def loadMesh_formula startsWith_def)
  with p show ?thesis by simp
qed

text \<open>
  Claim C6, as amended: the name of a mesh with vertices is \<^verbatim>\<open>f.\<close>, an identifier, an
  opening parenthesis directly behind it, a non-empty list of arguments (identifiers,
  possibly empty, and closed quoted strings, separated by commas) and a rest that neither
  closes the list nor continues it. When the meshes before it load, \<^verbatim>\<open>parseCall\<close> throws
  \<^verbatim>\<open>Expected ','\<close> and so does \<^verbatim>\<open>loadRoom\<close>, whatever meshes follow. By
  \<open>parseCall_raises_only_unclosed\<close> these are all the texts with an opening parenthesis
  behind the identifier on which \<^verbatim>\<open>parseCall\<close> throws, and it throws nothing else.
\<close>

theorem loadRoom_unclosed_paren_fails:
  assumes "loadRoom before = Some (Inr r)"
    and "vertices mesh \<noteq> []"
    and "name mesh = ''f.'' @ ident @ ''('' @ arglist_text args @ tail"
    and "\<not> startsWith (name mesh) ''f.start''"
    and "\<forall>c\<in>set ident. isIdentChar c"
    and "args \<noteq> []" and "list_all well_formed_arg args" and "list_stops (last args) tail"
  shows "parseCall (ident @ ''('' @ arglist_text args @ tail) = Some (Inl (expectError (CHR '','')))
     \<and> loadRoom (before @ mesh # after) = Some (Inl (expectError (CHR '','')))"
proof -
  have p: "parseCall (ident @ ''('' @ arglist_text args @ tail) = Some (Inl (expectError (CHR '','')))"
    using parseCall_open [OF assms(5), of "arglist_text args @ tail"]
      parseArgs_arglist [OF assms(6,7,8), of "[ident]"]
    by simp
  have "startsWith (name mesh) ''f.''"
    by (simp add: assms(3) startsWith_def)
  then have "loadMesh r mesh = Some (Inl (expectError (CHR '','')))"
    using p assms(2,3,4) by (simp add: loadMesh_formula parseFormula_def)
  then show ?thesis
    using p assms(1) by (simp add: loadRoom_def loadMeshes_append)
qed

text \<open>
  Witness for C6: the mesh \<^verbatim>\<open>f.door("a",b(c\<close>, with a closed string, an identifier and a
  second parenthesis, in front of another mesh.
\<close>

theorem loadRoom_unclosed_paren_fails_witness:
  "loadRoom [\<lparr>name = ''f.door('' @ [dquote] @ ''a'' @ [dquote] @ '',b(c'',
              vertices = [Vertex 0 0 0], faces = []\<rparr>,
             \<lparr>name = ''f.door(3)'', vertices = [], faces = []\<rparr>] =
     Some (Inl (RuntimeError (''Expected '' @ [CHR 0x27] @ '','' @ [CHR 0x27])))"
  using loadRoom_unclosed_paren_fails [of "[]" "\<lparr>start = Vector3i 0 0 2, colliders = [], things = []\<rparr>"
      "\<lparr>name = ''f.door('' @ [dquote] @ ''a'' @ [dquote] @ '',b(c'',
              vertices = [Vertex 0 0 0], faces = []\<rparr>" "''door''"
      "[Quoted ''a'', Identifier ''b'']" "''(c''"
      "[\<lparr>name = ''f.door(3)'', vertices = [], faces = []\<rparr>]"]
  by (simp add: loadRoom_def startsWith_def isIdentChar_def isalnum_def dquote_def NUL_def expectError_def)


lemma parseCall_door_space: "parseCall ''door (3'' = Some (Inr [''door''])"
  by code_simp

text \<open>
  Counterexample to C6 as stated, on two scenes. In \<^verbatim>\<open>f.door (3\<close> the parenthesis is
  opened and never closed, but a space stands before it: \<^verbatim>\<open>parseCall\<close> stops at the
  space and ignores the rest of the text, and the load returns a room whose thing
  \<^verbatim>\<open>door\<close> has no argument. The name \<^verbatim>\<open>f.start(3\<close> has the prefix \<^verbatim>\<open>f.\<close> and an
  unclosed parenthesis too, but it starts with \<^verbatim>\<open>f.start\<close>: the mesh is a spawn marker,
  its name is never parsed, and the load returns a room that starts at its vertex.
\<close>

theorem loadRoom_unclosed_paren_counterexample:
  "loadRoom [\<lparr>name = ''f.door (3'', vertices = [Vertex 0 0 0], faces = []\<rparr>] =
     Some (Inr \<lparr>start = Vector3i 0 0 2, colliders = [],
       things = [\<lparr>pos = Vector3f 0 0 0, typeName = ''door'', config = Map.empty\<rparr>]\<rparr>)
   \<and> loadRoom [\<lparr>name = ''f.start(3'', vertices = [Vertex 1 2 3], faces = [Face 0 0 0]\<rparr>] =
     Some (Inr \<lparr>start = Vector3i 1 2 3, colliders = [], things = []\<rparr>)"
proof -
  have "loadRoom [\<lparr>name = ''f.door (3'', vertices = [Vertex 0 0 0], faces = []\<rparr>] =
     Some (Inr \<lparr>start = Vector3i 0 0 2, colliders = [],
       things = [\<lparr>pos = Vector3f 0 0 0, typeName = ''door'', config = Map.empty\<rparr>]\<rparr>)"
    by (simp add: loadRoom_def loadMesh_formula startsWith_def parseFormula_def
        parseCall_door_space mean_position_def)
  moreover have "loadRoom [\<lparr>name = ''f.start(3'', vertices = [Vertex 1 2 3], faces = [Face 0 0 0]\<rparr>] =
     Some (Inr \<lparr>start = Vector3i 1 2 3, colliders = [], things = []\<rparr>)"
    by (simp add: loadRoom_def loadMesh_def startsWith_def vertex_at_def float_to_int_def
        trunc_float_def)
  ultimately show ?thesis by simp
qed

lemma parseCall_door: "parseCall ''door(3)'' = Some (Inr [''door'', ''3''])"
  by code_simp

lemma parseCall_crate: "parseCall ''crate'' = Some (Inr [''crate''])"
  by code_simp

lemma to_string_0: "to_string 0 = ''0''"
  by code_simp

lemma parseCall_door_key: "parseCall ''door(3,key)'' = Some (Inr [''door'', ''3'', ''key''])"
  by code_simp

lemma to_string_1: "to_string (Suc 0) = ''1''"
  by code_simp

text \<open>
  Claim C5: whenever \<^verbatim>\<open>parseCall\<close> returns the tokens \<open>words\<close>, there is a first token,
  \<^verbatim>\<open>parseFormula\<close> returns it as the type name, and the returned map has exactly the
  keys \<open>to_string i\<close> for the positions \<open>i\<close> of the remaining tokens, each mapped to the
  token at position \<open>i + 1\<close>. \<^verbatim>\<open>door(3)\<close> gives \<^verbatim>\<open>door\<close> and \<^verbatim>\<open>{"0": "3"}\<close>;
  \<^verbatim>\<open>crate\<close> gives \<^verbatim>\<open>crate\<close> and the empty map.
\<close>

theorem parseFormula_tokens:
  "(\<forall>formula words. parseCall formula = Some (Inr words) \<longrightarrow>
      words \<noteq> [] \<and>
      (\<exists>cfg. parseFormula formula = Some (Inr (hd words, cfg)) \<and>
         dom cfg = to_string ` {i. Suc i < length words} \<and>
         (\<forall>i. Suc i < length words \<longrightarrow> cfg (to_string i) = Some (words ! Suc i))))
   \<and> parseFormula ''door(3)'' = Some (Inr (''door'', [''0'' \<mapsto> ''3'']))
   \<and> parseFormula ''crate'' = Some (Inr (''crate'', Map.empty))"
proof (intro conjI allI impI)
  fix formula words
  assume ok: "parseCall formula = Some (Inr words)"
  show ne: "words \<noteq> []" using parseCall_nonempty [OF ok] .
  then obtain w ws where words: "words = w # ws" by (cases words) auto
  let ?cfg = "fillConfig 0 ws Map.empty"
  have "parseFormula formula = Some (Inr (hd words, ?cfg))"
    using ok words by (simp add: parseFormula_def)
  moreover have "dom ?cfg = to_string ` {i. Suc i < length words}"
    using fillConfig_dom [of 0 ws Map.empty] words by (simp add: lessThan_def atLeast0LessThan)
  moreover have "\<forall>i. Suc i < length words \<longrightarrow> ?cfg (to_string i) = Some (words ! Suc i)"
    using fillConfig_at [of _ ws 0 Map.empty] words by simp
  ultimately show "\<exists>cfg. parseFormula formula = Some (Inr (hd words, cfg)) \<and>
         dom cfg = to_string ` {i. Suc i < length words} \<and>
         (\<forall>i. Suc i < length words \<longrightarrow> cfg (to_string i) = Some (words ! Suc i))"
    by blast
next
  show "parseFormula ''door(3)'' = Some (Inr (''door'', [''0'' \<mapsto> ''3'']))"
    by (simp add: parseFormula_def parseCall_door to_string_0)
next
  show "parseFormula ''crate'' = Some (Inr (''crate'', Map.empty))"
    by (simp add: parseFormula_def parseCall_crate)
qed

text \<open>
  Witness for C5: the text \<^verbatim>\<open>door(3,key)\<close>, with two arguments.
\<close>

theorem parseFormula_tokens_witness:
  "parseCall ''door(3,key)'' = Some (Inr [''door'', ''3'', ''key'']) \<and>
   (\<exists>cfg. parseFormula ''door(3,key)'' = Some (Inr (''door'', cfg)) \<and>
      dom cfg = {''0'', ''1''} \<and> cfg ''0'' = Some ''3'' \<and> cfg ''1'' = Some ''key'')"
proof -
  let ?ws = "[''door'', ''3'', ''key'']"
  from parseFormula_tokens [THEN conjunct1, rule_format, OF parseCall_door_key]
  obtain cfg where a: "parseFormula ''door(3,key)'' = Some (Inr (hd ?ws, cfg))"
    and b: "dom cfg = to_string ` {i. Suc i < length ?ws}"
    and c: "\<forall>i. Suc i < length ?ws \<longrightarrow> cfg (to_string i) = Some (?ws ! Suc i)"
    by blast
  have c0: "cfg ''0'' = Some ''3''"
    using c [rule_format, of 0] by (simp add: to_string_0)
  have c1: "cfg ''1'' = Some ''key''"
    using c [rule_format, of "Suc 0"] by (simp add: to_string_1)
  have "{i. Suc i < length ?ws} = {0, Suc 0}"
    by auto
  then have d: "dom cfg = {''0'', ''1''}"
    using b by (simp add: to_string_0 to_string_1)
  from a c0 c1 d parseCall_door_key show ?thesis
    by simp
qed


section \<open>Claims about the classification of the meshes\<close>

lemma loadMesh_no_start:
  assumes "vertices mesh \<noteq> [] \<longrightarrow> \<not> startsWith (name mesh) ''f.start''"
    and "loadMesh r mesh = Some (Inr r')"
  shows "start r' = start r"
  using assms
  by (auto simp: loadMesh_def Let_def bindE_Inr_iff split: if_splits option.splits sum.splits)

lemma loadMeshes_no_start:
  assumes "\<forall>mesh\<in>set meshes. vertices mesh \<noteq> [] \<longrightarrow> \<not> startsWith (name mesh) ''f.start''"
    and "loadMeshes r meshes = Some (Inr r')"
  shows "start r' = start r"
  using assms
proof (induction meshes arbitrary: r)
  case Nil
  then show ?case by simp
next
  case (Cons mesh meshes)
  from Cons.prems(2) obtain r1 where 1: "loadMesh r mesh = Some (Inr r1)"
    and 2: "loadMeshes r1 meshes = Some (Inr r')"
    by (auto split: option.splits sum.splits)
  have "start r1 = start r" using loadMesh_no_start [OF _ 1] Cons.prems(1) by simp
  moreover have "start r' = start r1" using Cons.IH [OF _ 2] Cons.prems(1) by simp
  ultimately show ?case by simp
qed

lemma loadMesh_start:
  assumes "vertices mesh \<noteq> []" and "startsWith (name mesh) ''f.start''"
    and "loadMesh r mesh = Some (Inr r')"
  shows "\<exists>i1 i2 i3 fs px py pz. faces mesh = Face i1 i2 i3 # fs \<and> 0 \<le> i1 \<and> i1 < int (length (vertices mesh))
     \<and> vertices mesh ! nat i1 = Vertex px py pz
     \<and> r' = r\<lparr>start := Vector3i (trunc_float px) (trunc_float py) (trunc_float pz)\<rparr>"
proof -
  from assms obtain f fs where fs: "faces mesh = f # fs"
    by (cases "faces mesh") (auto simp: loadMesh_def)
  obtain i1 i2 i3 where f: "f = Face i1 i2 i3" by (cases f)
  from assms fs f obtain p where p: "vertex_at mesh i1 = Inr p"
    by (auto simp: loadMesh_def bindE_Inr_iff)
  obtain px py pz where v: "p = Vertex px py pz" by (cases p)
  from p have range: "0 \<le> i1" "i1 < int (length (vertices mesh))" "vertices mesh ! nat i1 = p"
    by (auto simp: vertex_at_def split: if_splits)
  from assms fs f p v have "r' = r\<lparr>start := Vector3i (trunc_float px) (trunc_float py) (trunc_float pz)\<rparr>"
    by (auto simp: loadMesh_def bindE_Inr_iff float_to_int_def split: if_splits)
  with fs f range v show ?thesis by blast
qed

lemma loadMesh_returns_any:
  assumes "loadMesh r mesh = Some (Inr r')"
  shows "\<exists>q'. loadMesh q mesh = Some (Inr q')"
proof (cases "vertices mesh = []")
  case True
  then show ?thesis by (simp add: loadMesh_def)
next
  case ne: False
  show ?thesis
  proof (cases "startsWith (name mesh) ''f.start''")
    case True
    from loadMesh_start [OF ne True assms] obtain i1 i2 i3 fs px py pz where
      f: "faces mesh = Face i1 i2 i3 # fs" and
      i: "0 \<le> i1" "i1 < int (length (vertices mesh))" and
      v: "vertices mesh ! nat i1 = Vertex px py pz"
      by blast
    have at: "vertex_at mesh i1 = Inr (Vertex px py pz)"
      using i v by (simp add: vertex_at_def)
    have "\<exists>sx sy sz. float_to_int px = Inr sx \<and> float_to_int py = Inr sy \<and> float_to_int pz = Inr sz"
      using assms ne True f at by (simp add: loadMesh_def bindE_Inr_iff) blast
    then show ?thesis
      using ne True f at by (auto simp: loadMesh_def)
  next
    case ns: False
    show ?thesis
    proof (cases "startsWith (name mesh) ''nocollide.''")
      case True
      with ne ns show ?thesis by (simp add: loadMesh_def)
    next
      case nc: False
      show ?thesis
      proof (cases "startsWith (name mesh) ''f.''")
        case True
        then show ?thesis
          using assms loadMesh_formula [OF ne ns True]
          by (auto split: option.splits sum.splits)
      next
        case nf: False
        from assms obtain brush brush' where
          "facePlanes mesh (faces mesh) \<lparr>planes = []\<rparr> = Inr brush"
          "bevelSharpEdges mesh brush = Inr brush'"
          by (auto simp: loadMesh_collider [OF ne nc nf] bindE_Inr_iff)
        then show ?thesis
          by (simp add: loadMesh_collider [OF ne nc nf])
      qed
    qed
  qed
qed

lemma loadMeshes_returns_any:
  "loadMeshes r meshes = Some (Inr r') \<Longrightarrow> \<exists>q'. loadMeshes q meshes = Some (Inr q')"
proof (induction meshes arbitrary: r q)
  case Nil
  show ?case by simp
next
  case (Cons m ms)
  from Cons.prems obtain r1 where 1: "loadMesh r m = Some (Inr r1)"
    and 2: "loadMeshes r1 ms = Some (Inr r')"
    by (auto split: option.splits sum.splits)
  from loadMesh_returns_any [OF 1, of q] obtain q1 where "loadMesh q m = Some (Inr q1)" by blast
  moreover from Cons.IH [OF 2, of q1] obtain q' where "loadMeshes q1 ms = Some (Inr q')" by blast
  ultimately show ?case by simp
qed

lemma loadMesh_start_marker:
  assumes "vertices mesh \<noteq> []" and "startsWith (name mesh) ''f.start''"
    and "faces mesh = Face i1 i2 i3 # fs"
    and "0 \<le> i1" and "i1 < int (length (vertices mesh))"
    and "vertices mesh ! nat i1 = Vertex px py pz"
    and "fits_int px" and "fits_int py" and "fits_int pz"
  shows "loadMesh r mesh =
     Some (Inr (r\<lparr>start := Vector3i (trunc_float px) (trunc_float py) (trunc_float pz)\<rparr>))"
  using assms by (simp add: loadMesh_def vertex_at_def float_to_int_def fits_int_def)

text \<open>
  Claim C4, as amended: the spawn point is set by the last mesh with vertices whose name
  starts with \<^verbatim>\<open>f.start\<close>; the spawn markers before it have no effect. Every room that
  the load returns starts at the position, converted to \<^verbatim>\<open>int\<close>, of the first vertex of
  that mesh's first triangle. The load does return such a room when the meshes before the
  marker load, the meshes behind it load, and the first index of the marker's first
  triangle is valid and refers to a vertex whose coordinates fit an \<^verbatim>\<open>int\<close>.
\<close>

theorem loadRoom_last_start_wins:
  assumes "vertices mesh \<noteq> []" and "startsWith (name mesh) ''f.start''"
    and "\<forall>m\<in>set after. vertices m \<noteq> [] \<longrightarrow> \<not> startsWith (name m) ''f.start''"
  shows "(\<forall>room. loadRoom (before @ mesh # after) = Some (Inr room) \<longrightarrow>
      (\<exists>i1 i2 i3 fs px py pz. faces mesh = Face i1 i2 i3 # fs
         \<and> 0 \<le> i1 \<and> i1 < int (length (vertices mesh))
         \<and> vertices mesh ! nat i1 = Vertex px py pz
         \<and> start room = Vector3i (trunc_float px) (trunc_float py) (trunc_float pz)))
    \<and> (\<forall>i1 i2 i3 fs px py pz.
         (\<exists>room. loadRoom before = Some (Inr room)) \<and> (\<exists>room. loadRoom after = Some (Inr room))
         \<and> faces mesh = Face i1 i2 i3 # fs \<and> 0 \<le> i1 \<and> i1 < int (length (vertices mesh))
         \<and> vertices mesh ! nat i1 = Vertex px py pz
         \<and> fits_int px \<and> fits_int py \<and> fits_int pz \<longrightarrow>
      (\<exists>room. loadRoom (before @ mesh # after) = Some (Inr room)
         \<and> start room = Vector3i (trunc_float px) (trunc_float py) (trunc_float pz)))"
proof (intro conjI allI impI)
  fix room
  assume run: "loadRoom (before @ mesh # after) = Some (Inr room)"
  let ?r0 = "\<lparr>start = Vector3i 0 0 2, colliders = [], things = []\<rparr>"
  from run obtain r1 where 1: "loadMeshes ?r0 before = Some (Inr r1)"
    and 2: "loadMeshes r1 (mesh # after) = Some (Inr room)"
    by (auto simp: loadRoom_def loadMeshes_append split: option.splits sum.splits)
  from 2 obtain r2 where 3: "loadMesh r1 mesh = Some (Inr r2)"
    and 4: "loadMeshes r2 after = Some (Inr room)"
    by (auto split: option.splits sum.splits)
  have "start room = start r2" using loadMeshes_no_start [OF assms(3) 4] .
  with loadMesh_start [OF assms(1,2) 3]
  show "\<exists>i1 i2 i3 fs px py pz. faces mesh = Face i1 i2 i3 # fs
         \<and> 0 \<le> i1 \<and> i1 < int (length (vertices mesh))
         \<and> vertices mesh ! nat i1 = Vertex px py pz
         \<and> start room = Vector3i (trunc_float px) (trunc_float py) (trunc_float pz)"
    by auto
next
  fix i1 i2 i3 fs px py pz
  assume h: "(\<exists>room. loadRoom before = Some (Inr room)) \<and> (\<exists>room. loadRoom after = Some (Inr room))
         \<and> faces mesh = Face i1 i2 i3 # fs \<and> 0 \<le> i1 \<and> i1 < int (length (vertices mesh))
         \<and> vertices mesh ! nat i1 = Vertex px py pz
         \<and> fits_int px \<and> fits_int py \<and> fits_int pz"
  let ?r0 = "\<lparr>start = Vector3i 0 0 2, colliders = [], things = []\<rparr>"
  let ?s = "Vector3i (trunc_float px) (trunc_float py) (trunc_float pz)"
  from h obtain r1 where 1: "loadMeshes ?r0 before = Some (Inr r1)"
    by (auto simp: loadRoom_def)
  from h obtain ra where "loadMeshes ?r0 after = Some (Inr ra)"
    by (auto simp: loadRoom_def)
  from loadMeshes_returns_any [OF this, of "r1\<lparr>start := ?s\<rparr>"]
  obtain room where 3: "loadMeshes (r1\<lparr>start := ?s\<rparr>) after = Some (Inr room)" by blast
  have 2: "loadMesh r1 mesh = Some (Inr (r1\<lparr>start := ?s\<rparr>))"
    using loadMesh_start_marker [OF assms(1,2), of i1 i2 i3 fs px py pz r1] h by blast
  have run: "loadRoom (before @ mesh # after) = Some (Inr room)"
    by (simp add: loadRoom_def loadMeshes_append 1 2 3)
  moreover have "start room = ?s"
    using loadMeshes_no_start [OF assms(3) 3] by simp
  ultimately show "\<exists>room. loadRoom (before @ mesh # after) = Some (Inr room) \<and> start room = ?s"
    by blast
qed

lemma trunc_float_simps: "trunc_float 1 = 1" "trunc_float 2 = 2" "trunc_float 3 = 3"
    "trunc_float (9 / 2) = 4" "trunc_float (- (11 / 2)) = -5" "trunc_float 6 = 6"
  by (simp_all add: trunc_float_def)

text \<open>
  Counterexample to C4 as stated: of two spawn markers the first has its first vertex at
  \<open>(1, 2, 3)\<close> and the second at \<open>(4.5, -5.5, 6)\<close>; the room starts at \<open>(4, -5, 6)\<close>,
  the position of the second.
\<close>

theorem loadRoom_first_start_wins_counterexample:
  "loadRoom [start_a, start_b] = Some (Inr \<lparr>start = Vector3i 4 (-5) 6, colliders = [], things = []\<rparr>)"
  by (simp add: loadRoom_def loadMesh_def start_a_def start_b_def startsWith_def vertex_at_def float_to_int_def trunc_float_simps)

text \<open>
  Witness for C4: the two markers in front of an entity; the second marker decides, and
  the room is returned.
\<close>

theorem loadRoom_last_start_wins_witness:
  "loadRoom ([start_a] @ start_b # [door_marker]) =
     Some (Inr \<lparr>start = Vector3i 4 (-5) 6, colliders = [],
       things = [\<lparr>pos = Vector3f 1 2 3, typeName = ''door'', config = [''0'' \<mapsto> ''3'']\<rparr>]\<rparr>)
   \<and> Vector3i 4 (-5) 6 = Vector3i (trunc_float (9 / 2)) (trunc_float (- (11 / 2))) (trunc_float 6)"
proof -
  let ?r0 = "\<lparr>start = Vector3i 0 0 2, colliders = [], things = []\<rparr>"
  have p: "parseFormula (drop 2 (name door_marker)) = Some (Inr (''door'', [''0'' \<mapsto> ''3'']))"
    by (simp add: door_marker_def parseFormula_def parseCall_door to_string_0)
  have d: "loadMesh r door_marker = Some (Inr (r\<lparr>things := things r @
       [\<lparr>pos = Vector3f 1 2 3, typeName = ''door'', config = [''0'' \<mapsto> ''3'']\<rparr>]\<rparr>))" for r
    using loadMesh_formula [of door_marker r] p
    by (simp add: door_marker_def startsWith_def mean_position_def)
  have sa: "loadMesh r start_a = Some (Inr (r\<lparr>start := Vector3i 1 2 3\<rparr>))" for r
    by (simp add: loadMesh_def start_a_def startsWith_def vertex_at_def float_to_int_def
        trunc_float_simps)
  have sb: "loadMesh r start_b = Some (Inr (r\<lparr>start := Vector3i 4 (- 5) 6\<rparr>))" for r
    by (simp add: loadMesh_def start_b_def startsWith_def vertex_at_def float_to_int_def
        trunc_float_simps)
  have a: "\<exists>room. loadRoom [start_a] = Some (Inr room)"
    by (simp add: loadRoom_def sa)
  have b: "\<exists>room. loadRoom [door_marker] = Some (Inr room)"
    by (simp add: loadRoom_def d)
  have m: "vertices start_b \<noteq> []" "startsWith (name start_b) ''f.start''"
    "\<forall>m\<in>set [door_marker]. vertices m \<noteq> [] \<longrightarrow> \<not> startsWith (name m) ''f.start''"
    by (simp_all add: start_b_def door_marker_def startsWith_def)
  have f: "faces start_b = Face 0 0 0 # []" "(0::int) \<le> 0" "0 < int (length (vertices start_b))"
    "vertices start_b ! nat 0 = Vertex (9 / 2) (- (11 / 2)) 6"
    "fits_int (9 / 2)" "fits_int (- (11 / 2))" "fits_int 6"
    by (simp_all add: start_b_def fits_int_def trunc_float_simps)
  from loadRoom_last_start_wins [OF m, of "[start_a]", THEN conjunct2, rule_format,
      of 0 0 0 "[]" "9 / 2" "- (11 / 2)" 6] a b f
  obtain room where run: "loadRoom ([start_a] @ start_b # [door_marker]) = Some (Inr room)"
    and s: "start room = Vector3i (trunc_float (9 / 2)) (trunc_float (- (11 / 2))) (trunc_float 6)"
    by blast
  have run': "loadRoom ([start_a] @ start_b # [door_marker]) =
     Some (Inr \<lparr>start = Vector3i 4 (-5) 6, colliders = [],
       things = [\<lparr>pos = Vector3f 1 2 3, typeName = ''door'', config = [''0'' \<mapsto> ''3'']\<rparr>]\<rparr>)"
    by (simp add: loadRoom_def sa sb d)
  with run s have "Vector3i 4 (-5) 6 =
      Vector3i (trunc_float (9 / 2)) (trunc_float (- (11 / 2))) (trunc_float 6)"
    by auto
  with run' show ?thesis by blast
qed


text \<open>
  Claim C9, as amended: for a mesh with vertices whose name starts with \<^verbatim>\<open>f.\<close> but not
  with \<^verbatim>\<open>f.start\<close> (no such name starts with \<^verbatim>\<open>nocollide.\<close>), when \<^verbatim>\<open>parseFormula\<close>
  returns on the name without its first two characters, exactly one thing is added behind
  the things of the room: its position is the mean of all vertex positions of the mesh, its
  type name and its configuration are the result of \<^verbatim>\<open>parseFormula\<close>; the colliders and
  the spawn point are as before. When \<^verbatim>\<open>parseFormula\<close> throws, the load fails with the
  same error and no thing is added.
\<close>

theorem loadMesh_entity:
  assumes "vertices mesh \<noteq> []"
    and "startsWith (name mesh) ''f.''" and "\<not> startsWith (name mesh) ''f.start''"
  shows "(\<forall>tn cfg. parseFormula (drop 2 (name mesh)) = Some (Inr (tn, cfg)) \<longrightarrow>
       loadMesh r mesh = Some (Inr (r\<lparr>things := things r @
         [\<lparr>pos = mean_position (vertices mesh), typeName = tn, config = cfg\<rparr>]\<rparr>)))
     \<and> (\<forall>e. parseFormula (drop 2 (name mesh)) = Some (Inl e) \<longrightarrow>
       loadMesh r mesh = Some (Inl e))"
  using assms by (simp add: loadMesh_formula)

text \<open>
  Counterexample to C9 as stated: the mesh \<^verbatim>\<open>f.door(3\<close> has vertices and its name starts
  with \<^verbatim>\<open>f.\<close>, but no thing is added: the load fails with \<^verbatim>\<open>Expected ','\<close>.
\<close>

theorem loadMesh_entity_counterexample:
  "loadMesh \<lparr>start = Vector3i 0 0 2, colliders = [], things = []\<rparr> broken_marker =
     Some (Inl (RuntimeError (''Expected '' @ [CHR 0x27] @ '','' @ [CHR 0x27])))"
proof -
  have "parseCall (''door'' @ ''('' @ ''3'') = Some (Inl (expectError (CHR '','')))"
    by (rule parseCall_unclosed) (simp_all add: isIdentChar_def isalnum_def dquote_def)
  then show ?thesis
    by (simp add: broken_marker_def loadMesh_formula startsWith_def parseFormula_def expectError_def)
qed

text \<open>
  Witness for C9: the marker \<^verbatim>\<open>f.door(3)\<close> with the vertices \<open>(0, 0, 0)\<close> and \<open>(2, 4, 6)\<close>.
\<close>

theorem loadMesh_entity_witness:
  "loadMesh \<lparr>start = Vector3i 0 0 2, colliders = [], things = []\<rparr> door_marker =
     Some (Inr \<lparr>start = Vector3i 0 0 2, colliders = [],
       things = [\<lparr>pos = Vector3f 1 2 3, typeName = ''door'', config = [''0'' \<mapsto> ''3'']\<rparr>]\<rparr>)"
proof -
  have n: "vertices door_marker \<noteq> []" "startsWith (name door_marker) ''f.''"
    "\<not> startsWith (name door_marker) ''f.start''"
    by (simp_all add: door_marker_def startsWith_def)
  have p: "parseFormula (drop 2 (name door_marker)) = Some (Inr (''door'', [''0'' \<mapsto> ''3'']))"
    by (simp add: door_marker_def parseFormula_def parseCall_door to_string_0)
  from loadMesh_entity [OF n, of "\<lparr>start = Vector3i 0 0 2, colliders = [], things = []\<rparr>",
      THEN conjunct1, rule_format, OF p]
  show ?thesis
    by (simp add: door_marker_def mean_position_def)
qed


section \<open>The order of the edges and the map of the beveler\<close>

lemma vec_neq_iff [simp]: "vec_neq a b \<longleftrightarrow> a \<noteq> b"
  by (cases a; cases b) auto

lemma vec_less_irrefl [simp]: "\<not> vec_less a a"
  by (cases a) simp

lemma vec_less_trans: "vec_less a b \<Longrightarrow> vec_less b c \<Longrightarrow> vec_less a c"
  by (cases a; cases b; cases c) (auto split: if_splits)

lemma vec_less_total: "a \<noteq> b \<Longrightarrow> vec_less a b \<or> vec_less b a"
  by (cases a; cases b) auto

lemma vec_less_asym: "vec_less a b \<Longrightarrow> \<not> vec_less b a"
  using vec_less_trans vec_less_irrefl by blast

lemma edge_less_irrefl [simp]: "\<not> edge_less e e"
  by (simp add: edge_less_def)

lemma edge_less_trans: "edge_less a b \<Longrightarrow> edge_less b c \<Longrightarrow> edge_less a c"
  unfolding edge_less_def vec_neq_iff
  by (metis vec_less_trans vec_less_asym)

lemma edge_less_total: "a \<noteq> b \<Longrightarrow> edge_less a b \<or> edge_less b a"
  unfolding edge_less_def vec_neq_iff
  by (metis vec_less_total EdgeId.expand)

lemma edge_less_asym: "edge_less a b \<Longrightarrow> \<not> edge_less b a"
  using edge_less_trans edge_less_irrefl by blast

lemma mk_commute: "mk a b = mk b a"
  using vec_less_total [of a b] vec_less_asym [of a b]
  by (auto simp: mk_def vec_min_def vec_max_def)

lemma mk_ordered: "\<not> vec_less (v2 (mk a b)) (v1 (mk a b))"
  using vec_less_asym [of a b] by (auto simp: mk_def vec_min_def vec_max_def)

lemma sorted_less_notin:
  "sorted_wrt edge_less (k' # ks) \<Longrightarrow> edge_less k k' \<Longrightarrow> k \<notin> set (k' # ks)"
  using edge_less_trans edge_less_irrefl by (metis set_ConsD sorted_wrt.simps(2))

lemma edges_push_keys: "set (map fst (edges_push k N edges)) = insert k (set (map fst edges))"
proof (induction edges)
  case Nil
  show ?case by simp
next
  case (Cons x edges)
  obtain k' ns where x: "x = (k', ns)" by (cases x)
  consider "edge_less k k'" | "\<not> edge_less k k'" "edge_less k' k" | "k = k'" "\<not> edge_less k k'" "\<not> edge_less k' k"
    using edge_less_total by blast
  then show ?case
  proof cases
    case 1
    then show ?thesis using x by simp
  next
    case 2
    then show ?thesis using x Cons.IH by auto
  next
    case 3
    then show ?thesis using x by simp
  qed
qed

lemma edges_push_sorted:
  "sorted_wrt edge_less (map fst edges) \<Longrightarrow> sorted_wrt edge_less (map fst (edges_push k N edges))"
proof (induction edges)
  case Nil
  show ?case by simp
next
  case (Cons x edges)
  obtain k' ns where x: "x = (k', ns)" by (cases x)
  show ?case
  proof (cases "edge_less k k'")
    case True
    then show ?thesis using Cons.prems x edge_less_trans by auto
  next
    case nless: False
    show ?thesis
    proof (cases "edge_less k' k")
      case True
      have "\<forall>y\<in>set (map fst (edges_push k N edges)). edge_less k' y"
        using Cons.prems x True by (auto simp only: edges_push_keys sorted_wrt.simps list.map fst_conv set_simps)
      then show ?thesis using Cons x nless True by simp
    next
      case False
      then show ?thesis using Cons.prems x nless by simp
    qed
  qed
qed

lemma map_of_notin: "k \<notin> set (map fst edges) \<Longrightarrow> map_of edges k = None"
  by (simp add: map_of_eq_None_iff)

lemma edges_push_map_of:
  "sorted_wrt edge_less (map fst edges) \<Longrightarrow>
   map_of (edges_push k N edges) = (map_of edges)(k \<mapsto> normals_of edges k @ [N])"
proof (induction edges)
  case Nil
  show ?case by (simp add: normals_of_def)
next
  case (Cons x edges)
  obtain k' ns where x: "x = (k', ns)" by (cases x)
  show ?case
  proof (cases "edge_less k k'")
    case True
    have "k \<notin> set (map fst (x # edges))"
      using sorted_less_notin [of k' "map fst edges" k] Cons.prems True x by simp
    then have "normals_of (x # edges) k = []"
      using map_of_notin [of k "x # edges"] by (simp add: normals_of_def)
    then show ?thesis using True x by (auto simp: fun_upd_def)
  next
    case nless: False
    show ?thesis
    proof (cases "edge_less k' k")
      case True
      then have ne: "k \<noteq> k'" by auto
      have srt: "sorted_wrt edge_less (map fst edges)"
        using Cons.prems by simp
      have nk: "normals_of (x # edges) k = normals_of edges k"
        using ne x by (simp add: normals_of_def)
      have "map_of (edges_push k N (x # edges)) = (map_of (edges_push k N edges))(k' \<mapsto> ns)"
        using x nless True by simp
      also have "\<dots> = ((map_of edges)(k \<mapsto> normals_of edges k @ [N]))(k' \<mapsto> ns)"
        by (simp only: Cons.IH [OF srt])
      also have "\<dots> = ((map_of edges)(k' \<mapsto> ns))(k \<mapsto> normals_of edges k @ [N])"
        using ne by (intro fun_upd_twist)
      also have "\<dots> = (map_of (x # edges))(k \<mapsto> normals_of (x # edges) k @ [N])"
        using x nk by simp
      finally show ?thesis .
    next
      case False
      then have "k = k'" using nless edge_less_total by blast
      then show ?thesis using x nless False by (auto simp: normals_of_def fun_eq_iff)
    qed
  qed
qed

lemma edges_push_normals:
  "sorted_wrt edge_less (map fst edges) \<Longrightarrow>
   normals_of (edges_push k N edges) e = normals_of edges e @ (if e = k then [N] else [])"
  by (simp add: normals_of_def edges_push_map_of)

lemma push_all_props:
  "sorted_wrt edge_less (map fst edges) \<Longrightarrow>
     sorted_wrt edge_less (map fst (push_all inc edges)) \<and>
     set (map fst (push_all inc edges)) = set (map fst edges) \<union> fst ` set inc \<and>
     (\<forall>e. normals_of (push_all inc edges) e =
           normals_of edges e @ map snd (filter (\<lambda>(k, N). k = e) inc))"
proof (induction inc arbitrary: edges)
  case Nil
  then show ?case by (simp add: push_all_def)
next
  case (Cons x inc)
  obtain k N where x: "x = (k, N)" by (cases x)
  have step: "push_all (x # inc) edges = push_all inc (edges_push k N edges)"
    by (simp add: push_all_def x)
  have s: "sorted_wrt edge_less (map fst (edges_push k N edges))"
    using edges_push_sorted Cons.prems by blast
  from Cons.IH [OF s] have
    1: "sorted_wrt edge_less (map fst (push_all inc (edges_push k N edges)))" and
    2: "set (map fst (push_all inc (edges_push k N edges))) =
          set (map fst (edges_push k N edges)) \<union> fst ` set inc" and
    3: "\<And>e. normals_of (push_all inc (edges_push k N edges)) e =
          normals_of (edges_push k N edges) e @ map snd (filter (\<lambda>(k, N). k = e) inc)"
    by blast+
  have "set (map fst (push_all (x # inc) edges)) = set (map fst edges) \<union> fst ` set (x # inc)"
    unfolding step 2 edges_push_keys using x by auto
  moreover have "normals_of (push_all (x # inc) edges) e =
      normals_of edges e @ map snd (filter (\<lambda>(k, N). k = e) (x # inc))" for e
    unfolding step 3 using x by (simp add: edges_push_normals Cons.prems)
  ultimately show ?case using 1 step by simp
qed


section \<open>The loops over the faces\<close>

lemma vertex_at_valid:
  "0 \<le> i \<Longrightarrow> i < int (length (vertices mesh)) \<Longrightarrow> vertex_at mesh i = Inr (vertices mesh ! nat i)"
  by (simp add: vertex_at_def)

lemma computeNormal_valid:
  "valid_face mesh (Face i1 i2 i3) \<Longrightarrow>
   computeNormal mesh i1 i2 i3 = Inr (face_normal mesh (Face i1 i2 i3))"
  by (simp add: computeNormal_def vertex_at_valid corner_def Let_def)

lemma collectEdges_valid:
  "list_all (valid_face mesh) fs \<Longrightarrow>
   collectEdges mesh fs edges = Inr (push_all (concat (map (face_incidences mesh) fs)) edges)"
proof (induction fs arbitrary: edges)
  case Nil
  show ?case by (simp add: push_all_def)
next
  case (Cons f fs)
  obtain i1 i2 i3 where f: "f = Face i1 i2 i3" by (cases f)
  have v: "valid_face mesh (Face i1 i2 i3)" and rest: "list_all (valid_face mesh) fs"
    using Cons.prems f by simp_all
  have at: "vertex_at mesh i1 = Inr (vertices mesh ! nat i1)"
    "vertex_at mesh i2 = Inr (vertices mesh ! nat i2)"
    "vertex_at mesh i3 = Inr (vertices mesh ! nat i3)"
    using v by (simp_all add: vertex_at_valid)
  have "collectEdges mesh (f # fs) edges =
      collectEdges mesh fs (push_all (face_incidences mesh f) edges)"
    unfolding f
    by (simp add: computeNormal_valid [OF v] at push_all_def corner_def Let_def
        del: face_normal.simps)
  also have "\<dots> = Inr (push_all (concat (map (face_incidences mesh) fs)) (push_all (face_incidences mesh f) edges))"
    using Cons.IH [OF rest] .
  also have "\<dots> = Inr (push_all (concat (map (face_incidences mesh) (f # fs))) edges)"
    by (simp add: push_all_def)
  finally show ?case .
qed

lemma bevel_of_code:
  "bevel_of normals e =
     (if length normals \<noteq> 2 then []
      else if dotProduct (normals ! 0) (normals ! 1) > 0 then []
      else [\<lparr>normal = normalize (vec_add (normals ! 0) (normals ! 1)),
             offset = dotProduct (normalize (vec_add (normals ! 0) (normals ! 1))) (v1 e)\<rparr>])"
proof (cases normals)
  case Nil
  then show ?thesis by simp
next
  case (Cons a as)
  show ?thesis
  proof (cases as)
    case Nil
    with Cons show ?thesis by simp
  next
    case (Cons b bs)
    with \<open>normals = a # as\<close> show ?thesis by (cases bs) (auto simp: not_less)
  qed
qed

lemma emitBevels_concat:
  "emitBevels edges ps = ps @ concat (map (\<lambda>(e, normals). bevel_of normals e) edges)"
proof (induction edges arbitrary: ps)
  case Nil
  show ?case by simp
next
  case (Cons x edges)
  obtain e normals where x: "x = (e, normals)" by (cases x)
  show ?case unfolding x
    by (simp add: Cons.IH bevel_of_code [of normals e] Let_def del: bevel_of.simps)
qed

lemma sorted_edge_distinct: "sorted_wrt edge_less ks \<Longrightarrow> distinct ks"
  by (induction ks) auto

lemma bevelSharpEdges_valid:
  assumes "list_all (valid_face mesh) (faces mesh)"
  shows "\<exists>es. sorted_wrt edge_less es \<and> distinct es \<and> set es = mesh_keys mesh \<and>
     bevelSharpEdges mesh brush =
       Inr (brush\<lparr>planes := planes brush @
         concat (map (\<lambda>e. bevel_of (key_normals mesh e) e) es)\<rparr>)"
proof -
  let ?edges = "push_all (incidences mesh) []"
  let ?es = "map fst ?edges"
  from push_all_props [of "[]" "incidences mesh"] have
    srt: "sorted_wrt edge_less ?es" and
    keys: "set ?es = fst ` set (incidences mesh)" and
    normals: "\<And>e. normals_of ?edges e = key_normals mesh e"
    by (simp_all add: normals_of_def key_normals_def)
  have dist: "distinct ?es" using srt by (rule sorted_edge_distinct)
  have entry: "normals = key_normals mesh e" if "(e, normals) \<in> set ?edges" for e normals
    using map_of_is_SomeI [OF dist that] normals [of e] by (simp add: normals_of_def)
  have same: "map (\<lambda>(e, normals). bevel_of normals e) ?edges =
      map (\<lambda>e. bevel_of (key_normals mesh e) e) ?es"
    using entry by (auto simp: comp_def)
  have "emitBevels ?edges (planes brush) =
      planes brush @ concat (map (\<lambda>e. bevel_of (key_normals mesh e) e) ?es)"
    unfolding emitBevels_concat same ..
  then have "bevelSharpEdges mesh brush =
      Inr (brush\<lparr>planes := planes brush @
         concat (map (\<lambda>e. bevel_of (key_normals mesh e) e) ?es)\<rparr>)"
    using collectEdges_valid [OF assms, of "[]"]
    by (simp add: bevelSharpEdges_def incidences_def)
  with srt dist keys show ?thesis
    unfolding mesh_keys_def by blast
qed

lemma facePlanes_valid:
  "list_all (valid_face mesh) fs \<Longrightarrow>
   facePlanes mesh fs brush = Inr (brush\<lparr>planes := planes brush @ map (face_plane mesh) fs\<rparr>)"
proof (induction fs arbitrary: brush)
  case Nil
  show ?case by simp
next
  case (Cons f fs)
  obtain i1 i2 i3 where f: "f = Face i1 i2 i3" by (cases f)
  have v: "valid_face mesh (Face i1 i2 i3)" and rest: "list_all (valid_face mesh) fs"
    using Cons.prems f by simp_all
  have i1: "0 \<le> i1" "i1 < int (length (vertices mesh))" using v by simp_all
  show ?case unfolding f
    by (simp add: computeNormal_valid [OF v] vertex_at_valid [OF i1] Cons.IH [OF rest] corner_def
        Let_def del: face_normal.simps)
qed


section \<open>Face planes\<close>

lemma dot_cross_left [simp]: "dotProduct (crossProduct u v) u = 0"
  by (cases u; cases v) (simp add: algebra_simps)

lemma dot_cross_right [simp]: "dotProduct (crossProduct u v) v = 0"
  by (cases u; cases v) (simp add: algebra_simps)

lemma dot_scale: "dotProduct (vec_scale u k) w = k * dotProduct u w"
  by (cases u; cases w) (simp add: algebra_simps)

lemma dot_scale_right: "dotProduct w (vec_scale u k) = k * dotProduct w u"
  by (cases u; cases w) (simp add: algebra_simps)

lemma dot_sub: "dotProduct n (vec_sub b a) = dotProduct n b - dotProduct n a"
  by (cases n; cases a; cases b) (simp add: algebra_simps)

lemma dot_self_pos: "u \<noteq> Vector3f 0 0 0 \<Longrightarrow> 0 < dotProduct u u"
proof (cases u)
  case (Vector3f a b c)
  assume "u \<noteq> Vector3f 0 0 0"
  with Vector3f have nz: "a \<noteq> 0 \<or> b \<noteq> 0 \<or> c \<noteq> 0" by simp
  have sq: "0 \<le> a * a" "0 \<le> b * b" "0 \<le> c * c" by simp_all
  have "0 < a * a \<or> 0 < b * b \<or> 0 < c * c"
    using nz by (simp add: zero_less_mult_iff) (meson linorder_neqE_linordered_idom)
  with sq have "0 < a * a + b * b + c * c" by linarith
  with Vector3f show ?thesis by simp
qed

lemma normalize_unit:
  assumes "u \<noteq> Vector3f 0 0 0"
  shows "magnitude (normalize u) = 1"
proof -
  have pos: "0 < dotProduct u u" using dot_self_pos [OF assms] .
  have "dotProduct (normalize u) (normalize u) =
      (1 / sqrt (dotProduct u u)) * ((1 / sqrt (dotProduct u u)) * dotProduct u u)"
    by (simp add: normalize_def dot_scale dot_scale_right)
  also have "\<dots> = dotProduct u u / (sqrt (dotProduct u u) * sqrt (dotProduct u u))"
    by simp
  also have "\<dots> = 1" using pos by simp
  finally show ?thesis by (simp add: magnitude_def)
qed

lemma normalize_cross_orthogonal:
  "dotProduct (normalize (crossProduct u v)) u = 0"
  "dotProduct (normalize (crossProduct u v)) v = 0"
  by (simp_all add: normalize_def dot_scale)

lemma face_plane_geometry:
  assumes "crossProduct (vec_sub (corner mesh i2) (corner mesh i1))
                        (vec_sub (corner mesh i3) (corner mesh i1)) \<noteq> Vector3f 0 0 0"
  shows "dotProduct (normal (face_plane mesh (Face i1 i2 i3))) (corner mesh i1) =
           offset (face_plane mesh (Face i1 i2 i3))"
    and "dotProduct (normal (face_plane mesh (Face i1 i2 i3))) (corner mesh i2) =
           offset (face_plane mesh (Face i1 i2 i3))"
    and "dotProduct (normal (face_plane mesh (Face i1 i2 i3))) (corner mesh i3) =
           offset (face_plane mesh (Face i1 i2 i3))"
    and "magnitude (normal (face_plane mesh (Face i1 i2 i3))) = 1"
proof -
  let ?A = "corner mesh i1" and ?B = "corner mesh i2" and ?C = "corner mesh i3"
  let ?n = "normalize (crossProduct (vec_sub ?B ?A) (vec_sub ?C ?A))"
  have "dotProduct ?n (vec_sub ?B ?A) = 0" "dotProduct ?n (vec_sub ?C ?A) = 0"
    by (rule normalize_cross_orthogonal)+
  then have "dotProduct ?n ?B = dotProduct ?n ?A" "dotProduct ?n ?C = dotProduct ?n ?A"
    by (simp_all add: dot_sub)
  then show "dotProduct (normal (face_plane mesh (Face i1 i2 i3))) (corner mesh i1) =
           offset (face_plane mesh (Face i1 i2 i3))"
    and "dotProduct (normal (face_plane mesh (Face i1 i2 i3))) (corner mesh i2) =
           offset (face_plane mesh (Face i1 i2 i3))"
    and "dotProduct (normal (face_plane mesh (Face i1 i2 i3))) (corner mesh i3) =
           offset (face_plane mesh (Face i1 i2 i3))"
    by simp_all
  show "magnitude (normal (face_plane mesh (Face i1 i2 i3))) = 1"
    using normalize_unit [OF assms] by simp
qed

section \<open>Claims about the brush builder and the beveler\<close>

lemma wedge_valid: "list_all (valid_face wedge) (faces wedge)"
  by (simp add: wedge_def)

lemma wedge_bevels: "bevelSharpEdges wedge \<lparr>planes = ps\<rparr> = Inr \<lparr>planes = ps @ [wedge_bevel]\<rparr>"
proof -
  have "emitBevels (push_all (incidences wedge) []) ps = ps @ [wedge_bevel]"
    by (simp add: incidences_def wedge_def corner_def normalize_def mk_def vec_min_def vec_max_def
        push_all_def edge_less_def wedge_bevel_def)
  then show ?thesis
    using collectEdges_valid [OF wedge_valid, of "[]"]
    by (simp add: bevelSharpEdges_def incidences_def)
qed

lemma vec_less_lex: "vec_less a b = lex_less a b"
  by (cases a; cases b) auto

lemma endpoints_mk: "endpoints (mk a b) = {a, b}"
  by (auto simp: endpoints_def mk_def vec_min_def vec_max_def dest: vec_less_asym vec_less_total)

lemma endpoints_inj:
  assumes "\<not> vec_less (v2 e) (v1 e)" and "\<not> vec_less (v2 k) (v1 k)"
    and "endpoints e = endpoints k"
  shows "e = k"
proof -
  have "(v1 e = v1 k \<and> v2 e = v2 k) \<or> (v1 e = v2 k \<and> v2 e = v1 k)"
    using assms(3) by (auto simp: endpoints_def doubleton_eq_iff)
  then show ?thesis
  proof
    assume "v1 e = v1 k \<and> v2 e = v2 k"
    then show ?thesis by (simp add: EdgeId.expand)
  next
    assume sw: "v1 e = v2 k \<and> v2 e = v1 k"
    with assms(1,2) have "\<not> vec_less (v1 k) (v2 k)" "\<not> vec_less (v2 k) (v1 k)" by simp_all
    then have "v1 k = v2 k" using vec_less_total by blast
    with sw show ?thesis by (simp add: EdgeId.expand)
  qed
qed

lemma face_sides_incidences:
  "face_sides mesh f = map (\<lambda>(k, N). (endpoints k, N)) (face_incidences mesh f)"
  by (cases f) (simp add: endpoints_mk del: face_normal.simps)

lemma sides_incidences: "sides mesh = map (\<lambda>(k, N). (endpoints k, N)) (incidences mesh)"
proof -
  have "face_sides mesh = (\<lambda>f. map (\<lambda>(k, N). (endpoints k, N)) (face_incidences mesh f))"
    by (rule ext) (rule face_sides_incidences)
  then show ?thesis
    by (simp add: sides_def incidences_def map_concat comp_def)
qed

lemma incidences_canonical:
  assumes "(k, N) \<in> set (incidences mesh)"
  shows "\<not> vec_less (v2 k) (v1 k)"
proof -
  from assms obtain f where f: "(k, N) \<in> set (face_incidences mesh f)"
    by (auto simp: incidences_def)
  obtain i1 i2 i3 where "f = Face i1 i2 i3" by (cases f)
  with f obtain a b where "k = mk a b"
    by (auto simp del: face_normal.simps)
  then show ?thesis by (simp add: mk_ordered)
qed

lemma key_normals_incident:
  assumes "\<not> vec_less (v2 e) (v1 e)"
  shows "key_normals mesh e = incident_normals mesh (endpoints e)"
proof -
  have "filter (\<lambda>(k, N). endpoints k = endpoints e) (incidences mesh) =
      filter (\<lambda>(k, N). k = e) (incidences mesh)"
    using incidences_canonical [of _ _ mesh] endpoints_inj [OF _ assms]
    by (intro filter_cong) auto
  then show ?thesis
    by (simp add: key_normals_def incident_normals_def sides_incidences filter_map comp_def
        case_prod_unfold)
qed

text \<open>
  Claim C1: when the indices of the faces are valid, \<^verbatim>\<open>bevelSharpEdges\<close> returns the brush
  with new planes behind the old ones. The keys of the map, in their order, stand for the
  undirected edges of the mesh, each edge once, and the first field of a key is the smaller
  endpoint of its edge in the order of the specification. An edge with exactly two incident
  normals \<open>N1, N2\<close> and \<open>dot (N1, N2) \<le> 0\<close> gives the one plane with normal
  \<open>N3 = normalize (N1 + N2)\<close> and offset \<open>dot (N3, v1)\<close>, every other edge gives none.
\<close>

theorem bevelSharpEdges_one_plane_per_sharp_edge:
  assumes "list_all (valid_face mesh) (faces mesh)"
  shows "\<exists>es. distinct (map endpoints es) \<and> set (map endpoints es) = undirected_edges mesh \<and>
     (\<forall>e\<in>set es. v1 e \<in> endpoints e \<and> (\<forall>p\<in>endpoints e. \<not> lex_less p (v1 e))) \<and>
     sorted_wrt edge_less es \<and>
     bevelSharpEdges mesh brush =
       Inr (brush\<lparr>planes := planes brush @
         concat (map (\<lambda>e. bevel_of (incident_normals mesh (endpoints e)) e) es)\<rparr>)"
proof -
  from bevelSharpEdges_valid [OF assms, of brush] obtain es where
    es: "sorted_wrt edge_less es" "distinct es" "set es = mesh_keys mesh"
      "bevelSharpEdges mesh brush =
         Inr (brush\<lparr>planes := planes brush @
           concat (map (\<lambda>e. bevel_of (key_normals mesh e) e) es)\<rparr>)"
    by blast
  have canon: "\<not> vec_less (v2 e) (v1 e)" if "e \<in> set es" for e
    using that es(3) incidences_canonical [of e _ mesh] by (auto simp: mesh_keys_def)
  have inj: "inj_on endpoints (set es)"
    using canon endpoints_inj by (intro inj_onI) blast
  have 1: "distinct (map endpoints es)"
    using es(2) inj by (simp add: distinct_map)
  have 2: "set (map endpoints es) = undirected_edges mesh"
    using es(3) by (simp add: undirected_edges_def mesh_keys_def sides_incidences image_image
        case_prod_unfold)
  have 3: "\<forall>e\<in>set es. v1 e \<in> endpoints e \<and> (\<forall>p\<in>endpoints e. \<not> lex_less p (v1 e))"
    using canon by (auto simp: endpoints_def vec_less_lex [symmetric])
  have "map (\<lambda>e. bevel_of (key_normals mesh e) e) es =
      map (\<lambda>e. bevel_of (incident_normals mesh (endpoints e)) e) es"
    using canon key_normals_incident by (intro map_cong) auto
  with es(4) have 4: "bevelSharpEdges mesh brush =
       Inr (brush\<lparr>planes := planes brush @
         concat (map (\<lambda>e. bevel_of (incident_normals mesh (endpoints e)) e) es)\<rparr>)"
    by simp
  from 1 2 3 es(1) 4 show ?thesis by blast
qed

lemma wedge_shared_edge:
  "incident_normals wedge {Vector3f 0 0 0, Vector3f 1 0 0} = [Vector3f 0 0 1, Vector3f 0 1 0]"
  by (simp add: incident_normals_def sides_def wedge_def corner_def normalize_def doubleton_eq_iff)

lemma wedge_undirected_edges:
  "undirected_edges wedge =
     {{Vector3f 0 0 0, Vector3f 1 0 0}, {Vector3f 1 0 0, Vector3f 0 1 0},
      {Vector3f 0 1 0, Vector3f 0 0 0}, {Vector3f 0 0 0, Vector3f 0 0 1},
      {Vector3f 0 0 1, Vector3f 1 0 0}}"
  by (simp add: undirected_edges_def sides_def wedge_def corner_def insert_commute)

text \<open>
  Witness for C1: two triangles that meet at a right angle along the edge from
  \<open>(0, 0, 0)\<close> to \<open>(1, 0, 0)\<close>; of the five edges that edge alone is bevelled.
\<close>

theorem bevelSharpEdges_one_plane_per_sharp_edge_witness:
  "list_all (valid_face wedge) (faces wedge) \<and>
   undirected_edges wedge =
     {{Vector3f 0 0 0, Vector3f 1 0 0}, {Vector3f 1 0 0, Vector3f 0 1 0},
      {Vector3f 0 1 0, Vector3f 0 0 0}, {Vector3f 0 0 0, Vector3f 0 0 1},
      {Vector3f 0 0 1, Vector3f 1 0 0}} \<and>
   incident_normals wedge {Vector3f 0 0 0, Vector3f 1 0 0} = [Vector3f 0 0 1, Vector3f 0 1 0] \<and>
   bevelSharpEdges wedge \<lparr>planes = []\<rparr> = Inr \<lparr>planes = [wedge_bevel]\<rparr> \<and>
   (\<exists>es. distinct (map endpoints es) \<and> set (map endpoints es) = undirected_edges wedge \<and>
     (\<forall>e\<in>set es. v1 e \<in> endpoints e \<and> (\<forall>p\<in>endpoints e. \<not> lex_less p (v1 e))) \<and>
     sorted_wrt edge_less es \<and>
     [wedge_bevel] = concat (map (\<lambda>e. bevel_of (incident_normals wedge (endpoints e)) e) es))"
proof -
  from bevelSharpEdges_one_plane_per_sharp_edge [OF wedge_valid, of "\<lparr>planes = []\<rparr>"]
  obtain es where es: "distinct (map endpoints es)" "set (map endpoints es) = undirected_edges wedge"
    "\<forall>e\<in>set es. v1 e \<in> endpoints e \<and> (\<forall>p\<in>endpoints e. \<not> lex_less p (v1 e))"
    "sorted_wrt edge_less es"
    "bevelSharpEdges wedge \<lparr>planes = []\<rparr> =
       Inr (\<lparr>planes = []\<rparr>\<lparr>planes := planes \<lparr>planes = []\<rparr> @
         concat (map (\<lambda>e. bevel_of (incident_normals wedge (endpoints e)) e) es)\<rparr>)"
    by blast
  from es(5) wedge_bevels [of "[]"]
  have "[wedge_bevel] = concat (map (\<lambda>e. bevel_of (incident_normals wedge (endpoints e)) e) es)"
    by simp
  with es(1-4) have "\<exists>es. distinct (map endpoints es) \<and> set (map endpoints es) = undirected_edges wedge \<and>
     (\<forall>e\<in>set es. v1 e \<in> endpoints e \<and> (\<forall>p\<in>endpoints e. \<not> lex_less p (v1 e))) \<and>
     sorted_wrt edge_less es \<and>
     [wedge_bevel] = concat (map (\<lambda>e. bevel_of (incident_normals wedge (endpoints e)) e) es)"
    by blast
  moreover have "bevelSharpEdges wedge \<lparr>planes = []\<rparr> = Inr \<lparr>planes = [wedge_bevel]\<rparr>"
    using wedge_bevels [of "[]"] by simp
  ultimately show ?thesis
    using wedge_valid wedge_shared_edge wedge_undirected_edges by (intro conjI)
qed

text \<open>
  Claim C2: when the indices of the faces are valid, the loop that fills the brush adds
  behind the planes of the brush one plane per triangle, in the order of the faces, with
  normal \<open>normalize (cross (B - A, C - A))\<close> and offset \<open>dot (normal, A)\<close>.
\<close>

theorem facePlanes_one_plane_per_triangle:
  assumes "list_all (valid_face mesh) fs"
  shows "facePlanes mesh fs brush =
     Inr (brush\<lparr>planes := planes brush @ map (face_plane mesh) fs\<rparr>)"
  using assms by (rule facePlanes_valid)

lemma wedge_face_planes: "map (face_plane wedge) (faces wedge) = wedge_planes"
  by (simp add: wedge_def wedge_planes_def corner_def normalize_def)

text \<open>
  Witness for C2: the two triangles of the wedge.
\<close>

theorem facePlanes_one_plane_per_triangle_witness:
  "list_all (valid_face wedge) (faces wedge) \<and>
   facePlanes wedge (faces wedge) \<lparr>planes = []\<rparr> = Inr \<lparr>planes = wedge_planes\<rparr>"
  using facePlanes_one_plane_per_triangle [OF wedge_valid, of "\<lparr>planes = []\<rparr>"] wedge_valid
  by (simp add: wedge_face_planes)

text \<open>
  Claim C3, as amended: a mesh with vertices and valid indices whose name has no
  recognised prefix adds one brush to the colliders. Its planes are one plane per triangle,
  in the order of the faces, followed by the planes that \<^verbatim>\<open>bevelSharpEdges\<close> adds. The
  plane of a triangle whose corners are not collinear contains the three corners and has a
  normal of length 1 (over the real numbers).
\<close>

theorem loadMesh_collider_planes:
  assumes "vertices mesh \<noteq> []"
    and "\<not> startsWith (name mesh) ''nocollide.''" and "\<not> startsWith (name mesh) ''f.''"
    and "list_all (valid_face mesh) (faces mesh)"
  shows "\<exists>bevels. bevelSharpEdges mesh \<lparr>planes = []\<rparr> = Inr \<lparr>planes = bevels\<rparr> \<and>
     loadMesh r mesh = Some (Inr (r\<lparr>colliders := colliders r @
        [\<lparr>planes = map (face_plane mesh) (faces mesh) @ bevels\<rparr>]\<rparr>)) \<and>
     (\<forall>i1 i2 i3. Face i1 i2 i3 \<in> set (faces mesh) \<longrightarrow>
        crossProduct (vec_sub (corner mesh i2) (corner mesh i1))
                     (vec_sub (corner mesh i3) (corner mesh i1)) \<noteq> Vector3f 0 0 0 \<longrightarrow>
        dotProduct (normal (face_plane mesh (Face i1 i2 i3))) (corner mesh i1) =
          offset (face_plane mesh (Face i1 i2 i3)) \<and>
        dotProduct (normal (face_plane mesh (Face i1 i2 i3))) (corner mesh i2) =
          offset (face_plane mesh (Face i1 i2 i3)) \<and>
        dotProduct (normal (face_plane mesh (Face i1 i2 i3))) (corner mesh i3) =
          offset (face_plane mesh (Face i1 i2 i3)) \<and>
        magnitude (normal (face_plane mesh (Face i1 i2 i3))) = 1)"
proof -
  obtain edges where c: "collectEdges mesh (faces mesh) [] = Inr edges"
    using collectEdges_valid [OF assms(4)] by blast
  let ?bevels = "emitBevels edges []"
  have b0: "bevelSharpEdges mesh \<lparr>planes = []\<rparr> = Inr \<lparr>planes = ?bevels\<rparr>"
    by (simp add: bevelSharpEdges_def c)
  have b1: "bevelSharpEdges mesh \<lparr>planes = map (face_plane mesh) (faces mesh)\<rparr> =
      Inr \<lparr>planes = map (face_plane mesh) (faces mesh) @ ?bevels\<rparr>"
    by (simp add: bevelSharpEdges_def c emitBevels_concat [of edges "map (face_plane mesh) (faces mesh)"]
        emitBevels_concat [of edges "[]"])
  have "loadMesh r mesh = Some (Inr (r\<lparr>colliders := colliders r @
        [\<lparr>planes = map (face_plane mesh) (faces mesh) @ ?bevels\<rparr>]\<rparr>))"
    by (simp add: loadMesh_collider [OF assms(1,2,3)] facePlanes_valid [OF assms(4)] b1)
  with b0 face_plane_geometry show ?thesis
    by blast
qed


text \<open>
  Counterexample to C3 as stated: the wedge has 2 triangles, and its brush has 3 planes;
  the third is the bevel of the shared edge.
\<close>

theorem loadRoom_collider_counterexample:
  "loadRoom [wedge] =
     Some (Inr \<lparr>start = Vector3i 0 0 2,
                colliders = [\<lparr>planes = wedge_planes @ [wedge_bevel]\<rparr>], things = []\<rparr>)
   \<and> length (faces wedge) = 2 \<and> length (wedge_planes @ [wedge_bevel]) = 3"
proof -
  have n: "vertices wedge \<noteq> []" "\<not> startsWith (name wedge) ''nocollide.''"
    "\<not> startsWith (name wedge) ''f.''"
    by (simp_all add: wedge_def startsWith_def)
  have "loadMesh r wedge =
      Some (Inr (r\<lparr>colliders := colliders r @ [\<lparr>planes = wedge_planes @ [wedge_bevel]\<rparr>]\<rparr>))" for r
    by (simp add: loadMesh_collider [OF n] facePlanes_valid [OF wedge_valid] wedge_face_planes
        wedge_bevels)
  then show ?thesis
    by (simp add: loadRoom_def wedge_def wedge_planes_def)
qed

text \<open>
  Witness for C3: the wedge and its second triangle.
\<close>

theorem loadMesh_collider_planes_witness:
  "loadMesh \<lparr>start = Vector3i 0 0 2, colliders = [], things = []\<rparr> wedge =
     Some (Inr \<lparr>start = Vector3i 0 0 2,
                colliders = [\<lparr>planes = map (face_plane wedge) (faces wedge) @ [wedge_bevel]\<rparr>],
                things = []\<rparr>)
   \<and> face_plane wedge (Face 0 3 1) = \<lparr>normal = Vector3f 0 1 0, offset = 0\<rparr>
   \<and> dotProduct (normal (face_plane wedge (Face 0 3 1))) (corner wedge 0) =
        offset (face_plane wedge (Face 0 3 1))
   \<and> dotProduct (normal (face_plane wedge (Face 0 3 1))) (corner wedge 3) =
        offset (face_plane wedge (Face 0 3 1))
   \<and> dotProduct (normal (face_plane wedge (Face 0 3 1))) (corner wedge 1) =
        offset (face_plane wedge (Face 0 3 1))
   \<and> magnitude (normal (face_plane wedge (Face 0 3 1))) = 1"
proof -
  let ?r = "\<lparr>start = Vector3i 0 0 2, colliders = [], things = []\<rparr>"
  have n: "vertices wedge \<noteq> []" "\<not> startsWith (name wedge) ''nocollide.''"
    "\<not> startsWith (name wedge) ''f.''"
    by (simp_all add: wedge_def startsWith_def)
  from loadMesh_collider_planes [OF n wedge_valid, of ?r]
  obtain bevels where b: "bevelSharpEdges wedge \<lparr>planes = []\<rparr> = Inr \<lparr>planes = bevels\<rparr>"
    and l: "loadMesh ?r wedge = Some (Inr (?r\<lparr>colliders := colliders ?r @
        [\<lparr>planes = map (face_plane wedge) (faces wedge) @ bevels\<rparr>]\<rparr>))"
    and g: "\<forall>i1 i2 i3. Face i1 i2 i3 \<in> set (faces wedge) \<longrightarrow>
        crossProduct (vec_sub (corner wedge i2) (corner wedge i1))
                     (vec_sub (corner wedge i3) (corner wedge i1)) \<noteq> Vector3f 0 0 0 \<longrightarrow>
        dotProduct (normal (face_plane wedge (Face i1 i2 i3))) (corner wedge i1) =
          offset (face_plane wedge (Face i1 i2 i3)) \<and>
        dotProduct (normal (face_plane wedge (Face i1 i2 i3))) (corner wedge i2) =
          offset (face_plane wedge (Face i1 i2 i3)) \<and>
        dotProduct (normal (face_plane wedge (Face i1 i2 i3))) (corner wedge i3) =
          offset (face_plane wedge (Face i1 i2 i3)) \<and>
        magnitude (normal (face_plane wedge (Face i1 i2 i3))) = 1"
    by blast
  have eqb: "bevels = [wedge_bevel]"
    using b wedge_bevels [of "[]"] by simp
  have mem: "Face 0 3 1 \<in> set (faces wedge)"
    by (simp add: wedge_def)
  have nz: "crossProduct (vec_sub (corner wedge 3) (corner wedge 0))
                     (vec_sub (corner wedge 1) (corner wedge 0)) \<noteq> Vector3f 0 0 0"
    by (simp add: wedge_def corner_def)
  have fp: "face_plane wedge (Face 0 3 1) = \<lparr>normal = Vector3f 0 1 0, offset = 0\<rparr>"
    by (simp add: wedge_def corner_def normalize_def)
  have l': "loadMesh ?r wedge =
     Some (Inr \<lparr>start = Vector3i 0 0 2,
                colliders = [\<lparr>planes = map (face_plane wedge) (faces wedge) @ [wedge_bevel]\<rparr>],
                things = []\<rparr>)"
    using l unfolding eqb by simp
  from l' fp g [rule_format, OF mem nz] show ?thesis
    by blast
qed

lemma cube_valid: "list_all (valid_face cube) (faces cube)"
  by (simp add: cube_def)

lemma cube_collect: "collectEdges cube (faces cube) [] = Inr cube_edges"
proof -
  have "push_all (incidences cube) [] = cube_edges"
    by (simp add: incidences_def cube_def corner_def normalize_def mk_def vec_min_def vec_max_def
        push_all_def edge_less_def cube_edges_def Let_def)
  then show ?thesis
    using collectEdges_valid [OF cube_valid, of "[]"] by (simp add: incidences_def)
qed

lemma cube_emit: "emitBevels cube_edges ps = ps @ cube_bevels"
  by (simp add: cube_edges_def Let_def cube_bevels_def normalize_def)

text \<open>
  Claim C8: for the unit cube of 12 triangles the map of the beveler has 18 edges with two
  normals each. The sharp ones are the 12 edges of the cube, the smooth ones the 6
  diagonals of the faces, and \<^verbatim>\<open>bevelSharpEdges\<close> adds exactly 12 planes behind the planes
  of the brush: the bevels of the 12 edges of the cube.
\<close>

theorem cube_twelve_bevels:
  "length (faces cube) = 12
   \<and> collectEdges cube (faces cube) [] = Inr cube_edges
   \<and> length cube_edges = 18
   \<and> filter sharp cube_edges = filter cube_edge cube_edges
   \<and> filter smooth cube_edges = filter face_diagonal cube_edges
   \<and> length (filter cube_edge cube_edges) = 12
   \<and> length (filter face_diagonal cube_edges) = 6
   \<and> bevelSharpEdges cube \<lparr>planes = ps\<rparr> = Inr \<lparr>planes = ps @ cube_bevels\<rparr>
   \<and> cube_bevels =
       concat (map (\<lambda>entry. bevel_of (snd entry) (fst entry)) (filter cube_edge cube_edges))
   \<and> length cube_bevels = 12"
proof -
  have "bevelSharpEdges cube \<lparr>planes = ps\<rparr> = Inr \<lparr>planes = ps @ cube_bevels\<rparr>"
    by (simp add: bevelSharpEdges_def cube_collect cube_emit)
  moreover have "filter sharp cube_edges = filter cube_edge cube_edges"
    by (simp add: cube_edges_def Let_def sharp_def cube_edge_def)
  moreover have "filter smooth cube_edges = filter face_diagonal cube_edges"
    by (simp add: cube_edges_def Let_def smooth_def face_diagonal_def)
  moreover have "length (filter cube_edge cube_edges) = 12"
    by (simp add: cube_edges_def Let_def cube_edge_def)
  moreover have "length (filter face_diagonal cube_edges) = 6"
    by (simp add: cube_edges_def Let_def face_diagonal_def)
  moreover have "cube_bevels =
       concat (map (\<lambda>entry. bevel_of (snd entry) (fst entry)) (filter cube_edge cube_edges))"
    by (simp add: cube_edges_def Let_def cube_edge_def cube_bevels_def normalize_def)
  moreover have "length cube_edges = 18" by (simp add: cube_edges_def Let_def)
  moreover have "length cube_bevels = 12" by (simp add: cube_bevels_def)
  moreover have "length (faces cube) = 12" by (simp add: cube_def)
  ultimately show ?thesis using cube_collect by simp
qed


section \<open>The default spawn point\<close>

lemma loadMesh_returns:
  assumes "vertices mesh \<noteq> [] \<longrightarrow> \<not> startsWith (name mesh) ''f.start''"
    and "vertices mesh = [] \<or> startsWith (name mesh) ''nocollide.''
       \<or> (startsWith (name mesh) ''f.'' \<and> (\<exists>result. parseFormula (drop 2 (name mesh)) = Some (Inr result)))
       \<or> (\<not> startsWith (name mesh) ''f.'' \<and> list_all (valid_face mesh) (faces mesh))"
  shows "\<exists>r'. loadMesh r mesh = Some (Inr r')"
proof (cases "vertices mesh = []")
  case True
  then show ?thesis by (simp add: loadMesh_def)
next
  case False
  with assms(1) have ns: "\<not> startsWith (name mesh) ''f.start''" by simp
  show ?thesis
  proof (cases "startsWith (name mesh) ''nocollide.''")
    case True
    with False ns show ?thesis by (simp add: loadMesh_def)
  next
    case nc: False
    show ?thesis
    proof (cases "startsWith (name mesh) ''f.''")
      case True
      with assms(2) False nc obtain tn cfg where
        "parseFormula (drop 2 (name mesh)) = Some (Inr (tn, cfg))"
        by auto
      then show ?thesis
        using loadMesh_formula [OF False ns True, of r] by simp
    next
      case nf: False
      with assms(2) \<open>vertices mesh \<noteq> []\<close> nc have v: "list_all (valid_face mesh) (faces mesh)"
        by auto
      obtain edges where c: "collectEdges mesh (faces mesh) [] = Inr edges"
        using collectEdges_valid [OF v] by blast
      show ?thesis
        by (simp add: loadMesh_collider [OF \<open>vertices mesh \<noteq> []\<close> nc nf] facePlanes_valid [OF v]
            bevelSharpEdges_def c)
    qed
  qed
qed

text \<open>
  Claim C10: when no mesh with vertices has a name that starts with \<^verbatim>\<open>f.start\<close>, every
  room that \<^verbatim>\<open>loadRoom\<close> returns starts at \<open>(0, 0, 2)\<close>; and \<^verbatim>\<open>loadRoom\<close> does return
  such a room when every mesh is empty, or decorative, or an entity whose formula parses,
  or collision geometry with valid indices.
\<close>

theorem loadRoom_default_start:
  assumes "\<forall>mesh\<in>set meshes. vertices mesh \<noteq> [] \<longrightarrow> \<not> startsWith (name mesh) ''f.start''"
  shows "(\<forall>room. loadRoom meshes = Some (Inr room) \<longrightarrow> start room = Vector3i 0 0 2)
    \<and> ((\<forall>mesh\<in>set meshes. vertices mesh = [] \<or> startsWith (name mesh) ''nocollide.''
           \<or> (startsWith (name mesh) ''f.'' \<and>
               (\<exists>result. parseFormula (drop 2 (name mesh)) = Some (Inr result)))
           \<or> (\<not> startsWith (name mesh) ''f.'' \<and> list_all (valid_face mesh) (faces mesh)))
         \<longrightarrow> (\<exists>room. loadRoom meshes = Some (Inr room) \<and> start room = Vector3i 0 0 2))"
proof -
  have 1: "\<forall>room. loadRoom meshes = Some (Inr room) \<longrightarrow> start room = Vector3i 0 0 2"
    using loadMeshes_no_start [OF assms] by (auto simp: loadRoom_def)
  have "\<exists>r'. loadMeshes r ms = Some (Inr r')"
    if "\<forall>mesh\<in>set ms. vertices mesh \<noteq> [] \<longrightarrow> \<not> startsWith (name mesh) ''f.start''"
      and "\<forall>mesh\<in>set ms. vertices mesh = [] \<or> startsWith (name mesh) ''nocollide.''
           \<or> (startsWith (name mesh) ''f.'' \<and>
               (\<exists>result. parseFormula (drop 2 (name mesh)) = Some (Inr result)))
           \<or> (\<not> startsWith (name mesh) ''f.'' \<and> list_all (valid_face mesh) (faces mesh))"
    for ms r
    using that
  proof (induction ms arbitrary: r)
    case Nil
    show ?case by simp
  next
    case (Cons m ms)
    obtain r1 where "loadMesh r m = Some (Inr r1)"
      using loadMesh_returns [of m r] Cons.prems by auto
    moreover obtain r' where "loadMeshes r1 ms = Some (Inr r')"
      using Cons.IH [of r1] Cons.prems by auto
    ultimately show ?case by simp
  qed
  note ret = this
  have 2: "(\<forall>mesh\<in>set meshes. vertices mesh = [] \<or> startsWith (name mesh) ''nocollide.''
           \<or> (startsWith (name mesh) ''f.'' \<and>
               (\<exists>result. parseFormula (drop 2 (name mesh)) = Some (Inr result)))
           \<or> (\<not> startsWith (name mesh) ''f.'' \<and> list_all (valid_face mesh) (faces mesh)))
         \<longrightarrow> (\<exists>room. loadRoom meshes = Some (Inr room) \<and> start room = Vector3i 0 0 2)"
  proof
    assume c: "\<forall>mesh\<in>set meshes. vertices mesh = [] \<or> startsWith (name mesh) ''nocollide.''
           \<or> (startsWith (name mesh) ''f.'' \<and>
               (\<exists>result. parseFormula (drop 2 (name mesh)) = Some (Inr result)))
           \<or> (\<not> startsWith (name mesh) ''f.'' \<and> list_all (valid_face mesh) (faces mesh))"
    from ret [OF assms c] obtain r' where "loadRoom meshes = Some (Inr r')"
      unfolding loadRoom_def by blast
    with 1 show "\<exists>room. loadRoom meshes = Some (Inr room) \<and> start room = Vector3i 0 0 2"
      by blast
  qed
  from 1 2 show ?thesis ..
qed

text \<open>
  Witness for C10: the wedge and the marker \<^verbatim>\<open>f.door(3)\<close>.
\<close>

theorem loadRoom_default_start_witness:
  "loadRoom [wedge, door_marker] =
       Some (Inr \<lparr>start = Vector3i 0 0 2,
                  colliders = [\<lparr>planes = wedge_planes @ [wedge_bevel]\<rparr>],
                  things = [\<lparr>pos = Vector3f 1 2 3, typeName = ''door'', config = [''0'' \<mapsto> ''3'']\<rparr>]\<rparr>)
   \<and> start \<lparr>start = Vector3i 0 0 2,
                  colliders = [\<lparr>planes = wedge_planes @ [wedge_bevel]\<rparr>],
                  things = [\<lparr>pos = Vector3f 1 2 3, typeName = ''door'', config = [''0'' \<mapsto> ''3'']\<rparr>]\<rparr>
       = Vector3i 0 0 2"
proof -
  have h: "\<forall>mesh\<in>set [wedge, door_marker]. vertices mesh \<noteq> [] \<longrightarrow> \<not> startsWith (name mesh) ''f.start''"
    by (simp add: wedge_def door_marker_def startsWith_def)
  have n: "vertices wedge \<noteq> []" "\<not> startsWith (name wedge) ''nocollide.''"
    "\<not> startsWith (name wedge) ''f.''"
    by (simp_all add: wedge_def startsWith_def)
  have w: "loadMesh r wedge =
      Some (Inr (r\<lparr>colliders := colliders r @ [\<lparr>planes = wedge_planes @ [wedge_bevel]\<rparr>]\<rparr>))" for r
    by (simp add: loadMesh_collider [OF n] facePlanes_valid [OF wedge_valid] wedge_face_planes
        wedge_bevels)
  have p: "parseFormula (drop 2 (name door_marker)) = Some (Inr (''door'', [''0'' \<mapsto> ''3'']))"
    by (simp add: door_marker_def parseFormula_def parseCall_door to_string_0)
  have d: "loadMesh r door_marker = Some (Inr (r\<lparr>things := things r @
       [\<lparr>pos = Vector3f 1 2 3, typeName = ''door'', config = [''0'' \<mapsto> ''3'']\<rparr>]\<rparr>))" for r
    using loadMesh_formula [of door_marker r] p
    by (simp add: door_marker_def startsWith_def mean_position_def)
  have run: "loadRoom [wedge, door_marker] =
       Some (Inr \<lparr>start = Vector3i 0 0 2,
                  colliders = [\<lparr>planes = wedge_planes @ [wedge_bevel]\<rparr>],
                  things = [\<lparr>pos = Vector3f 1 2 3, typeName = ''door'', config = [''0'' \<mapsto> ''3'']\<rparr>]\<rparr>)"
    by (simp add: loadRoom_def w d)
  from loadRoom_default_start [OF h, THEN conjunct1, rule_format, OF run] run
  show ?thesis by simp
qed


end
